theory Spec2Isabelle
  imports Main
begin

section \<open>Instants and durations\<close>

text \<open>
  The scheduler works on Go's \<open>time.Time\<close> and \<open>time.Duration\<close>. An instant is
  modelled as the number of nanoseconds since 0001-01-01 00:00:00 UTC (the zero value
  of \<open>time.Time\<close>), a duration as a number of nanoseconds. Both, and the \<open>int\<close>
  counters of the source, are unbounded integers here: the development is about values
  inside the 64-bit range, where Go's arithmetic agrees with the integers. The
  wrap-around of a product of \<open>int\<close>s and the saturation of \<open>Time.Sub\<close> at the ends
  of the range of \<open>Duration\<close> are outside the model.
\<close>

type_synonym Time = int
type_synonym Duration = int

definition IsZero :: "Time \<Rightarrow> bool" where
  "IsZero t = (t = 0)"

definition Before :: "Time \<Rightarrow> Time \<Rightarrow> bool" where
  "Before t u = (t < u)"

definition Add :: "Time \<Rightarrow> Duration \<Rightarrow> Time" where
  "Add t d = t + d"

definition Sub :: "Time \<Rightarrow> Time \<Rightarrow> Duration" where
  "Sub t u = t - u"

text \<open>
  \<open>time.Now()\<close> is an input of the program. A clock is the sequence of readings that
  the successive calls of \<open>time.Now()\<close> inside one call of \<open>next\<close> return; a frozen
  (simulated) clock returns the same instant at every reading.
\<close>

type_synonym clock = "nat \<Rightarrow> Time"

definition frozen :: "Time \<Rightarrow> clock" where
  "frozen now = (\<lambda>_. now)"

section \<open>The calendar of the \<open>time\<close> package\<close>

text \<open>
  \<open>monthly\<close> and \<open>yearly\<close> use \<open>Time.AddDate\<close> and \<open>Time.Day\<close>. They are
  modelled on the proleptic Gregorian calendar in UTC, as the \<open>time\<close> package
  computes them: \<open>Date\<close> normalises a month outside 1..12 into the year and lets a day
  outside the month run over into the neighbouring months; \<open>Time_Date\<close> is the method
  \<open>t.Date()\<close> (year, month, day) and \<open>Day\<close> the method \<open>t.Day()\<close>. The hour,
  minute, second and nanosecond of an instant are kept together as the nanoseconds
  since midnight, \<open>t mod nsPerDay\<close>.
\<close>

definition nsPerDay :: int where
  "nsPerDay = 86400000000000"

definition isLeap :: "int \<Rightarrow> bool" where
  "isLeap year = (year mod 4 = 0 \<and> (year mod 100 \<noteq> 0 \<or> year mod 400 = 0))"

text \<open>\<open>daysBefore m\<close>: days of a non-leap year before the end of month \<open>m\<close>.\<close>

definition daysBefore :: "int \<Rightarrow> int" where
  "daysBefore m = [0, 31, 59, 90, 120, 151, 181, 212, 243, 273, 304, 334, 365] ! nat m"

definition daysIn :: "int \<Rightarrow> int \<Rightarrow> int" where
  "daysIn m year = (if m = 2 \<and> isLeap year then 29 else daysBefore m - daysBefore (m - 1))"

text \<open>Days from 0001-01-01 to the first of January of \<open>year\<close>.\<close>

definition daysSinceEpoch :: "int \<Rightarrow> int" where
  "daysSinceEpoch year =
     365 * (year - 1) + (year - 1) div 4 - (year - 1) div 100 + (year - 1) div 400"

text \<open>Days of \<open>year\<close> before the end of its month \<open>m\<close> (0 for none, 12 for all).\<close>

definition daysBeforeIn :: "int \<Rightarrow> int \<Rightarrow> int" where
  "daysBeforeIn year m = daysBefore m + (if isLeap year \<and> 2 \<le> m then 1 else 0)"

definition Date :: "int \<Rightarrow> int \<Rightarrow> int \<Rightarrow> int \<Rightarrow> Time" where
  "Date year month day tod =
     (let y = year + (month - 1) div 12;
          m = (month - 1) mod 12
      in (daysSinceEpoch y + daysBeforeIn y m + (day - 1)) * nsPerDay + tod)"

text \<open>
  The year of day number \<open>d\<close>: the search goes up from a year that starts on or before
  day \<open>d\<close> to the year that contains it.
\<close>

function find_year :: "int \<Rightarrow> int \<Rightarrow> int" where
  "find_year y d = (if daysSinceEpoch (y + 1) \<le> d then find_year (y + 1) d else y)"
  by pat_completeness auto

lemma div_step:
  fixes y c :: int
  assumes c: "0 < c"
  shows "y div c = (y - 1) div c + (if y mod c = 0 then 1 else 0)"
proof (cases "y mod c = 0")
  case True
  have "y = c * (y div c)" using True mult_div_mod_eq [of c y] by simp
  then have "y - 1 = c * (y div c - 1) + (c - 1)"
    by (simp add: algebra_simps)
  then have "(y - 1) div c = y div c - 1"
    by (rule int_div_pos_eq) (use c in simp_all)
  with True show ?thesis by simp
next
  case False
  have "0 \<le> y mod c" "y mod c < c" using c by simp_all
  with False have r: "0 \<le> y mod c - 1" "y mod c - 1 < c" by simp_all
  have "y = c * (y div c) + y mod c" by simp
  then have "y - 1 = c * (y div c) + (y mod c - 1)"
    by simp
  then have "(y - 1) div c = y div c"
    by (rule int_div_pos_eq) (use r in simp_all)
  with False show ?thesis by simp
qed

lemma dvd_mod_0:
  fixes y a b :: int
  assumes "a dvd b" "y mod b = 0"
  shows "y mod a = 0"
proof -
  have "b dvd y" using assms(2) by (simp add: mod_eq_0_iff_dvd)
  with assms(1) have "a dvd y" by (rule dvd_trans)
  then show ?thesis by (simp add: mod_eq_0_iff_dvd)
qed

lemma mod_100_400: "(y::int) mod 400 = 0 \<Longrightarrow> y mod 100 = 0"
  by (rule dvd_mod_0 [of 100 400]) simp_all

lemma mod_4_100: "(y::int) mod 100 = 0 \<Longrightarrow> y mod 4 = 0"
  by (rule dvd_mod_0 [of 4 100]) simp_all

lemma leap_indicator:
  fixes y :: int
  shows "(if y mod 4 = 0 then 1 else 0) - (if y mod 100 = 0 then 1 else 0) + (if y mod 400 = 0 then 1 else 0) = (if isLeap y then 1 else (0::int))"
proof (cases "y mod 400 = 0")
  case True
  then have "y mod 100 = 0" by (rule mod_100_400)
  moreover from this have "y mod 4 = 0" by (rule mod_4_100)
  ultimately show ?thesis using True by (simp add: isLeap_def)
next
  case F: False
  show ?thesis
  proof (cases "y mod 100 = 0")
    case True
    then have "y mod 4 = 0" by (rule mod_4_100)
    with True F show ?thesis by (simp add: isLeap_def)
  next
    case False
    with F show ?thesis by (simp add: isLeap_def)
  qed
qed

lemma daysSinceEpoch_Suc:
  "daysSinceEpoch (y + 1) = daysSinceEpoch y + (if isLeap y then 366 else 365)"
proof -
  define a :: int where "a = (if y mod 4 = 0 then 1 else 0)"
  define b :: int where "b = (if y mod 100 = 0 then 1 else 0)"
  define c :: int where "c = (if y mod 400 = 0 then 1 else 0)"
  define p4 p100 p400 where "p4 = (y - 1) div 4" and "p100 = (y - 1) div 100"
    and "p400 = (y - 1) div 400"
  define q4 q100 q400 where "q4 = y div 4" and "q100 = y div 100" and "q400 = y div 400"
  have d4: "q4 = p4 + a"
    unfolding a_def p4_def q4_def by (rule div_step) simp
  have d100: "q100 = p100 + b"
    unfolding b_def p100_def q100_def by (rule div_step) simp
  have d400: "q400 = p400 + c"
    unfolding c_def p400_def q400_def by (rule div_step) simp
  have e: "daysSinceEpoch (y + 1) = 365 * y + q4 - q100 + q400"
    by (simp add: daysSinceEpoch_def q4_def q100_def q400_def)
  have f: "daysSinceEpoch y = 365 * (y - 1) + p4 - p100 + p400"
    by (simp add: daysSinceEpoch_def p4_def p100_def p400_def)
  have "daysSinceEpoch (y + 1) = daysSinceEpoch y + 365 + (a - b + c)"
    unfolding e f d4 d100 d400 by (simp add: algebra_simps)
  moreover have "a - b + c = (if isLeap y then 1 else 0)"
    unfolding a_def b_def c_def by (rule leap_indicator)
  ultimately show ?thesis by simp
qed

termination find_year
proof (relation "measure (\<lambda>(y, d). nat (d + 1 - daysSinceEpoch (y + 1)))", goal_cases)
  case 1
  show ?case by simp
next
  case (2 y d)
  have "daysSinceEpoch (y + 1) < daysSinceEpoch (2 + y)"
    using daysSinceEpoch_Suc [of "y + 1"] by (simp add: ac_simps)
  with 2 show ?case by simp
qed

definition year_of :: "int \<Rightarrow> int" where
  "year_of d = find_year (if 0 \<le> d then d div 366 + 1 else d div 365) d"

text \<open>The month (0 to 11) of day \<open>yd\<close> of year \<open>y\<close>, searched from January.\<close>

fun find_month :: "int \<Rightarrow> int \<Rightarrow> nat \<Rightarrow> int \<Rightarrow> int" where
  "find_month y yd 0 m = m"
| "find_month y yd (Suc fuel) m =
     (if daysBeforeIn y (m + 1) \<le> yd then find_month y yd fuel (m + 1) else m)"

definition Time_Date :: "Time \<Rightarrow> int \<times> int \<times> int" where
  "Time_Date t =
     (let d = t div nsPerDay;
          y = year_of d;
          yd = d - daysSinceEpoch y;
          m = find_month y yd 11 0
      in (y, m + 1, yd - daysBeforeIn y m + 1))"

definition Day :: "Time \<Rightarrow> int" where
  "Day t = snd (snd (Time_Date t))"

definition AddDate :: "Time \<Rightarrow> int \<Rightarrow> int \<Rightarrow> int \<Rightarrow> Time" where
  "AddDate t years months days =
     (case Time_Date t of (year, month, day) \<Rightarrow>
        Date (year + years) (month + months) (day + days) (t mod nsPerDay))"

section \<open>Job: the execution ceiling\<close>

text \<open>
  \<open>Job\<close> of the dispatcher, restricted to the fields \<open>run\<close> reads and writes:
  \<open>job_times\<close> (the field \<open>times\<close>: the ceiling, \<open>-1\<close> means no limit) and
  \<open>job_n\<close> (the field \<open>n\<close>: executions so far). The
  task is an opaque callable; its effect is recorded as the number of times it has been
  invoked. \<open>run\<close> holds the job's mutex for its whole body, so calls of \<open>run\<close> are
  serialised and a sequence of calls is a sequence of state transformations.
\<close>

record Job =
  job_times :: int
  job_n :: int
  invoked :: nat

definition Schedule :: "Job" where
  "Schedule = \<lparr>job_times = -1, job_n = 0, invoked = 0\<rparr>"

definition NTimes :: "int \<Rightarrow> Job \<Rightarrow> Job" where
  "NTimes k j = j\<lparr>job_times := k\<rparr>"

definition Once :: "Job \<Rightarrow> Job" where
  "Once j = NTimes 1 j"

definition Twice :: "Job \<Rightarrow> Job" where
  "Twice j = NTimes 2 j"

definition run :: "Job \<Rightarrow> Job" where
  "run j = (if job_times j = -1 \<or> job_n j < job_times j
            then j\<lparr>job_n := job_n j + 1, invoked := invoked j + 1\<rparr>
            else j)"

text \<open>\<open>runs r j\<close>: \<open>r\<close> successive calls of \<open>run\<close>.\<close>

fun runs :: "nat \<Rightarrow> Job \<Rightarrow> Job" where
  "runs 0 j = j"
| "runs (Suc r) j = runs r (run j)"

section \<open>Cadences\<close>

text \<open>
  \<open>chronos.go\<close> holds an earlier draft of the cadences followed by the final one; the
  final one (with the constructors and \<open>getCandidate\<close>) is modelled here, and the
  \<open>Job\<close> above is the one that has the method \<open>run\<close>.
  The three cadences of the source are structs with the same field names; the fields
  carry a prefix here (\<open>p_\<close>, \<open>m_\<close>, \<open>y_\<close>) and \<open>end\<close>, \<open>n\<close> become
  \<open>p_end\<close>, \<open>p_n\<close> and so on. The constructors read \<open>time.Now()\<close> when no
  start is given; that reading is their first argument \<open>now\<close>. The methods
  \<open>getCandidate\<close> and \<open>next\<close> of each struct carry the struct's name.
\<close>

subsection \<open>Periodic\<close>

record periodic =
  p_start :: Time
  p_end :: Time
  p_started :: bool
  p_ammount :: Duration
  p_n :: int

definition newPeriodic ::
  "Time \<Rightarrow> Time \<Rightarrow> Time \<Rightarrow> int \<Rightarrow> Duration \<Rightarrow> bool \<Rightarrow> string + periodic" where
  "newPeriodic now start0 end0 ammount unit notInmediately =
     (if ammount = 0 \<or> unit = 0 then Inl ''0 is not a valid period''
      else let start1 = (if IsZero start0 then now else start0);
               n0 = (if notInmediately then 1 else 0)
           in Inr \<lparr>p_start = start1, p_end = end0, p_started = notInmediately,
                   p_ammount = ammount * unit, p_n = n0\<rparr>)"

definition periodic_getCandidate :: "periodic \<Rightarrow> Time" where
  "periodic_getCandidate s = Add (p_start s) (p_n s * p_ammount s)"

text \<open>
  The \<open>for\<close> loop of \<open>periodic.next\<close>. \<open>k\<close> counts the clock readings taken so far in
  this call; the loop may run forever, which is the value \<open>None\<close>. It returns the
  state, the candidate \<open>next\<close> and the number of readings taken.
\<close>

partial_function (option) periodic_loop ::
  "clock \<Rightarrow> nat \<Rightarrow> periodic \<Rightarrow> Time \<Rightarrow> (periodic \<times> Time \<times> nat) option" where
  "periodic_loop clk k s nxt =
     (if Before nxt (clk k) then
        (if \<not> p_started s then Some (s, nxt, Suc k)
         else periodic_loop clk (Suc k) (s\<lparr>p_n := p_n s + 1\<rparr>)
                (periodic_getCandidate (s\<lparr>p_n := p_n s + 1\<rparr>)))
      else Some (s, nxt, Suc k))"

declare periodic_loop.simps [code]

text \<open>
  \<open>periodic.next\<close>: the pair the source returns (has-more flag and wait), and the
  updated receiver.
\<close>

definition periodic_next :: "clock \<Rightarrow> periodic \<Rightarrow> ((bool \<times> Duration) \<times> periodic) option" where
  "periodic_next clk s =
     (case periodic_loop clk 0 s (periodic_getCandidate s) of
        None \<Rightarrow> None
      | Some (s1, nxt, k) \<Rightarrow>
          let s2 = (if \<not> p_started s1 then s1\<lparr>p_started := True\<rparr> else s1)
          in Some ((IsZero (p_end s2) \<or> Before nxt (p_end s2), Sub nxt (clk k)), s2))"

subsection \<open>Monthly\<close>

record monthly =
  m_start :: Time
  m_end :: Time
  m_started :: bool
  m_ammount :: int
  m_n :: int

definition newMonthly :: "Time \<Rightarrow> Time \<Rightarrow> Time \<Rightarrow> int \<Rightarrow> bool \<Rightarrow> string + monthly" where
  "newMonthly now start0 end0 ammount notInmediately =
     (if ammount = 0 then Inl ''0 months is not a valid period''
      else let start1 = (if IsZero start0 then now else start0);
               n0 = (if notInmediately then 1 else 0)
           in Inr \<lparr>m_start = start1, m_end = end0, m_started = notInmediately,
                   m_ammount = ammount, m_n = n0\<rparr>)"

definition monthly_getCandidate :: "monthly \<Rightarrow> Time" where
  "monthly_getCandidate s =
     (let res = AddDate (m_start s) 0 (m_n s * m_ammount s) 0
      in if Day res \<noteq> Day (m_start s) then AddDate res 0 0 (- Day res) else res)"

partial_function (option) monthly_loop ::
  "clock \<Rightarrow> nat \<Rightarrow> monthly \<Rightarrow> Time \<Rightarrow> (monthly \<times> Time \<times> nat) option" where
  "monthly_loop clk k s nxt =
     (if Before nxt (clk k) then
        (if \<not> m_started s then Some (s, nxt, Suc k)
         else monthly_loop clk (Suc k) (s\<lparr>m_n := m_n s + 1\<rparr>)
                (monthly_getCandidate (s\<lparr>m_n := m_n s + 1\<rparr>)))
      else Some (s, nxt, Suc k))"

declare monthly_loop.simps [code]

definition monthly_next :: "clock \<Rightarrow> monthly \<Rightarrow> ((bool \<times> Duration) \<times> monthly) option" where
  "monthly_next clk s =
     (case monthly_loop clk 0 s (monthly_getCandidate s) of
        None \<Rightarrow> None
      | Some (s1, nxt, k) \<Rightarrow>
          let s2 = (if \<not> m_started s1 then s1\<lparr>m_started := True\<rparr> else s1)
          in Some ((IsZero (m_end s2) \<or> Before nxt (m_end s2), Sub nxt (clk k)), s2))"

subsection \<open>Yearly\<close>

record yearly =
  y_start :: Time
  y_end :: Time
  y_started :: bool
  y_ammount :: int
  y_n :: int

definition newYearly :: "Time \<Rightarrow> Time \<Rightarrow> Time \<Rightarrow> int \<Rightarrow> bool \<Rightarrow> string + yearly" where
  "newYearly now start0 end0 ammount notInmediately =
     (if ammount = 0 then Inl ''0 years is not a valid period''
      else let start1 = (if IsZero start0 then now else start0);
               n0 = (if notInmediately then 1 else 0)
           in Inr \<lparr>y_start = start1, y_end = end0, y_started = notInmediately,
                   y_ammount = ammount, y_n = n0\<rparr>)"

definition yearly_getCandidate :: "yearly \<Rightarrow> Time" where
  "yearly_getCandidate s =
     (let res = AddDate (y_start s) (y_n s * y_ammount s) 0 0
      in if Day res \<noteq> Day (y_start s) then AddDate res 0 0 (- Day res) else res)"

partial_function (option) yearly_loop ::
  "clock \<Rightarrow> nat \<Rightarrow> yearly \<Rightarrow> Time \<Rightarrow> (yearly \<times> Time \<times> nat) option" where
  "yearly_loop clk k s nxt =
     (if Before nxt (clk k) then
        (if \<not> y_started s then Some (s, nxt, Suc k)
         else yearly_loop clk (Suc k) (s\<lparr>y_n := y_n s + 1\<rparr>)
                (yearly_getCandidate (s\<lparr>y_n := y_n s + 1\<rparr>)))
      else Some (s, nxt, Suc k))"

declare yearly_loop.simps [code]

definition yearly_next :: "clock \<Rightarrow> yearly \<Rightarrow> ((bool \<times> Duration) \<times> yearly) option" where
  "yearly_next clk s =
     (case yearly_loop clk 0 s (yearly_getCandidate s) of
        None \<Rightarrow> None
      | Some (s1, nxt, k) \<Rightarrow>
          let s2 = (if \<not> y_started s1 then s1\<lparr>y_started := True\<rparr> else s1)
          in Some ((IsZero (y_end s2) \<or> Before nxt (y_end s2), Sub nxt (clk k)), s2))"

subsection \<open>The scheduler interface\<close>

text \<open>
  \<open>scheduler\<close> is the interface with the one method \<open>next\<close>; its implementations
  are the three cadences. A call through the interface dispatches on the
  implementation. \<open>getCandidate\<close>, \<open>occurrenceIndex\<close> (the field \<open>n\<close>), \<open>primed\<close>
  (the field \<open>started\<close>), \<open>anchor\<close> (the field \<open>start\<close>) and \<open>bound\<close> (the field
  \<open>end\<close>) read the implementation behind the interface.
\<close>

datatype scheduler = Periodic periodic | Monthly monthly | Yearly yearly

fun "next" :: "clock \<Rightarrow> scheduler \<Rightarrow> ((bool \<times> Duration) \<times> scheduler) option" where
  "next clk (Periodic s) = map_option (\<lambda>(r, s'). (r, Periodic s')) (periodic_next clk s)"
| "next clk (Monthly s) = map_option (\<lambda>(r, s'). (r, Monthly s')) (monthly_next clk s)"
| "next clk (Yearly s) = map_option (\<lambda>(r, s'). (r, Yearly s')) (yearly_next clk s)"

fun getCandidate :: "scheduler \<Rightarrow> Time" where
  "getCandidate (Periodic s) = periodic_getCandidate s"
| "getCandidate (Monthly s) = monthly_getCandidate s"
| "getCandidate (Yearly s) = yearly_getCandidate s"

fun occurrenceIndex :: "scheduler \<Rightarrow> int" where
  "occurrenceIndex (Periodic s) = p_n s"
| "occurrenceIndex (Monthly s) = m_n s"
| "occurrenceIndex (Yearly s) = y_n s"

fun primed :: "scheduler \<Rightarrow> bool" where
  "primed (Periodic s) = p_started s"
| "primed (Monthly s) = m_started s"
| "primed (Yearly s) = y_started s"

fun anchor :: "scheduler \<Rightarrow> Time" where
  "anchor (Periodic s) = p_start s"
| "anchor (Monthly s) = m_start s"
| "anchor (Yearly s) = y_start s"

fun bound :: "scheduler \<Rightarrow> Time" where
  "bound (Periodic s) = p_end s"
| "bound (Monthly s) = m_end s"
| "bound (Yearly s) = y_end s"

text \<open>The step of a cadence: a duration, a number of months or a number of years.\<close>

fun step :: "scheduler \<Rightarrow> int" where
  "step (Periodic s) = p_ammount s"
| "step (Monthly s) = m_ammount s"
| "step (Yearly s) = y_ammount s"

text \<open>\<open>at_index c i\<close>: the cadence \<open>c\<close> with its field \<open>n\<close> set to \<open>i\<close>.\<close>

fun at_index :: "scheduler \<Rightarrow> int \<Rightarrow> scheduler" where
  "at_index (Periodic s) i = Periodic (s\<lparr>p_n := i\<rparr>)"
| "at_index (Monthly s) i = Monthly (s\<lparr>m_n := i\<rparr>)"
| "at_index (Yearly s) i = Yearly (s\<lparr>y_n := i\<rparr>)"

fun set_primed :: "scheduler \<Rightarrow> scheduler" where
  "set_primed (Periodic s) = Periodic (s\<lparr>p_started := True\<rparr>)"
| "set_primed (Monthly s) = Monthly (s\<lparr>m_started := True\<rparr>)"
| "set_primed (Yearly s) = Yearly (s\<lparr>y_started := True\<rparr>)"

text \<open>
  The candidate of \<open>c\<close> for occurrence index \<open>i\<close>: what \<open>getCandidate\<close> returns when
  the field \<open>n\<close> is \<open>i\<close>.
\<close>

definition candidate :: "scheduler \<Rightarrow> int \<Rightarrow> Time" where
  "candidate c i = getCandidate (at_index c i)"

text \<open>
  Successive calls of \<open>next\<close>, the \<open>j\<close>-th under the \<open>j\<close>-th clock of the list: the
  reports of the calls in order, and the cadence after the last call.
\<close>

fun nexts :: "clock list \<Rightarrow> scheduler \<Rightarrow> ((bool \<times> Duration) list \<times> scheduler) option" where
  "nexts [] c = Some ([], c)"
| "nexts (clk # clks) c =
     (case next clk c of
        None \<Rightarrow> None
      | Some (r, c') \<Rightarrow>
          (case nexts clks c' of
             None \<Rightarrow> None
           | Some (rs, c'') \<Rightarrow> Some (r # rs, c'')))"

section \<open>Auxiliary definitions for the proofs\<close>

text \<open>
  \<open>clamp start res\<close> is the correction that \<open>monthly.getCandidate\<close> and
  \<open>yearly.getCandidate\<close> both apply to the result \<open>res\<close> of \<open>AddDate\<close>.
\<close>

definition clamp :: "Time \<Rightarrow> Time \<Rightarrow> Time" where
  "clamp start res = (if Day res \<noteq> Day start then AddDate res 0 0 (- Day res) else res)"

subsection \<open>The catch-up loop\<close>

text \<open>
  The three \<open>for\<close> loops are the same loop over the occurrence index. \<open>catch_up\<close> is
  that loop on the index alone, for any candidate function; the loops of the cadences
  are shown to be instances of it below, and the properties of the loop are proved
  once.
\<close>

partial_function (option) catch_up ::
  "(int \<Rightarrow> Time) \<Rightarrow> clock \<Rightarrow> bool \<Rightarrow> nat \<Rightarrow> int \<Rightarrow> (int \<times> nat) option" where
  "catch_up cand clk started k i =
     (if Before (cand i) (clk k) then
        (if \<not> started then Some (i, Suc k)
         else catch_up cand clk started (Suc k) (i + 1))
      else Some (i, Suc k))"

declare catch_up.simps [code]

text \<open>
  What the loop has established when it returns \<open>r = (i', k')\<close> from index \<open>i\<close> and
  reading \<open>k\<close> of a primed cadence: \<open>i'\<close> is the first index from \<open>i\<close> whose candidate
  is not before the clock reading of its test.
\<close>

definition catch_up_post :: "(int \<Rightarrow> Time) \<Rightarrow> clock \<Rightarrow> nat \<Rightarrow> int \<Rightarrow> int \<times> nat \<Rightarrow> bool" where
  "catch_up_post cand clk k i r =
     (i \<le> fst r \<and> snd r = Suc (k + nat (fst r - i)) \<and>
      \<not> Before (cand (fst r)) (clk (k + nat (fst r - i))) \<and>
      (\<forall>j. i \<le> j \<and> j < fst r \<longrightarrow> Before (cand j) (clk (k + nat (j - i)))))"

section \<open>Properties of the calendar\<close>

lemma daysSinceEpoch_less: "daysSinceEpoch y < daysSinceEpoch (y + 1)"
  by (simp add: daysSinceEpoch_Suc)

lemma daysSinceEpoch_mono_aux: "daysSinceEpoch y \<le> daysSinceEpoch (y + int k)"
proof (induction k)
  case 0
  show ?case by simp
next
  case (Suc k)
  have "daysSinceEpoch (y + int k) < daysSinceEpoch (y + int k + 1)"
    by (rule daysSinceEpoch_less)
  then have "daysSinceEpoch (y + int k) < daysSinceEpoch (y + int (Suc k))"
    by (simp add: ac_simps)
  with Suc show ?case by linarith
qed

lemma daysSinceEpoch_mono: "y \<le> y' \<Longrightarrow> daysSinceEpoch y \<le> daysSinceEpoch y'"
  using daysSinceEpoch_mono_aux [of y "nat (y' - y)"] by simp

lemma year_unique:
  assumes "daysSinceEpoch y \<le> d" "d < daysSinceEpoch (y + 1)"
    and "daysSinceEpoch y' \<le> d" "d < daysSinceEpoch (y' + 1)"
  shows "y = y'"
proof (rule ccontr)
  assume "y \<noteq> y'"
  then consider "y + 1 \<le> y'" | "y' + 1 \<le> y" by linarith
  then show False
  proof cases
    case 1
    from daysSinceEpoch_mono [OF this] assms show False by simp
  next
    case 2
    from daysSinceEpoch_mono [OF this] assms show False by simp
  qed
qed

lemma find_year_spec:
  "daysSinceEpoch y \<le> d \<Longrightarrow>
   daysSinceEpoch (find_year y d) \<le> d \<and> d < daysSinceEpoch (find_year y d + 1)"
proof (induction y d rule: find_year.induct)
  case (1 y d)
  show ?case
  proof (cases "daysSinceEpoch (y + 1) \<le> d")
    case True
    from "1.IH" [OF True True] True show ?thesis by (subst (1 2) find_year.simps) simp
  next
    case False
    with "1.prems" show ?thesis by (subst (1 2) find_year.simps) simp
  qed
qed

lemma div_mult_le_aux:
  fixes d c :: int
  assumes "0 < c"
  shows "c * (d div c) \<le> d"
proof -
  have "c * (d div c) + d mod c = d" by simp
  moreover have "0 \<le> d mod c" using assms by simp
  ultimately show ?thesis by linarith
qed

lemma year_start_le:
  "daysSinceEpoch (if 0 \<le> d then d div 366 + 1 else d div 365) \<le> d"
proof (cases "0 \<le> d")
  case True
  define j where "j = d div 366"
  define f4 f100 f400 where "f4 = j div 4" and "f100 = j div 100" and "f400 = j div 400"
  have j0: "0 \<le> j" using True by (simp add: j_def pos_imp_zdiv_nonneg_iff)
  have "f400 \<le> f100" unfolding f400_def f100_def using j0 by (intro zdiv_mono2) simp_all
  moreover have "4 * f4 \<le> j" unfolding f4_def by (rule div_mult_le_aux) simp
  moreover have "366 * j \<le> d" unfolding j_def by (rule div_mult_le_aux) simp
  moreover have "daysSinceEpoch (j + 1) = 365 * j + f4 - f100 + f400"
    by (simp add: daysSinceEpoch_def f4_def f100_def f400_def)
  ultimately have "daysSinceEpoch (j + 1) \<le> d" using j0 by linarith
  then show ?thesis using True by (simp add: j_def)
next
  case False
  define j where "j = d div 365 - 1"
  define f4 f100 f400 where "f4 = j div 4" and "f100 = j div 100" and "f400 = j div 400"
  have "d div 365 < 0" using False by (simp add: neg_imp_zdiv_neg_iff)
  then have jn: "j < 0" by (simp add: j_def)
  have "f4 \<le> f100" unfolding f4_def f100_def using jn by (intro zdiv_mono2_neg) simp_all
  moreover have "f400 < 0" unfolding f400_def using jn by (simp add: neg_imp_zdiv_neg_iff)
  moreover have "365 * (d div 365) \<le> d" by (rule div_mult_le_aux) simp
  then have "365 * (j + 1) \<le> d" by (simp add: j_def)
  moreover have "daysSinceEpoch (j + 1) = 365 * j + f4 - f100 + f400"
    by (simp add: daysSinceEpoch_def f4_def f100_def f400_def)
  ultimately have "daysSinceEpoch (j + 1) \<le> d" by (simp add: algebra_simps)
  then show ?thesis using False by (simp add: j_def)
qed

lemma year_of_spec:
  "daysSinceEpoch (year_of d) \<le> d \<and> d < daysSinceEpoch (year_of d + 1)"
  unfolding year_of_def by (rule find_year_spec) (rule year_start_le)

lemma year_of_eq:
  "daysSinceEpoch y \<le> d \<Longrightarrow> d < daysSinceEpoch (y + 1) \<Longrightarrow> year_of d = y"
  using year_of_spec [of d] year_unique by blast



lemma daysBefore_simps:
  "daysBefore 0 = 0" "daysBefore 1 = 31" "daysBefore 2 = 59" "daysBefore 3 = 90"
  "daysBefore 4 = 120" "daysBefore 5 = 151" "daysBefore 6 = 181" "daysBefore 7 = 212"
  "daysBefore 8 = 243" "daysBefore 9 = 273" "daysBefore 10 = 304" "daysBefore 11 = 334"
  "daysBefore 12 = 365"
  by (simp_all add: daysBefore_def)

lemma month_cases:
  fixes m :: int
  assumes "1 \<le> m" "m \<le> 12"
  shows "m = 1 \<or> m = 2 \<or> m = 3 \<or> m = 4 \<or> m = 5 \<or> m = 6 \<or> m = 7 \<or> m = 8 \<or> m = 9 \<or>
         m = 10 \<or> m = 11 \<or> m = 12"
  using assms by arith

lemma daysBeforeIn_Suc:
  assumes "1 \<le> m" "m \<le> 12"
  shows "daysBeforeIn y m = daysBeforeIn y (m - 1) + daysIn m y"
  using month_cases [OF assms]
  by (elim disjE) (simp_all add: daysBeforeIn_def daysIn_def daysBefore_simps)

lemma daysIn_bounds:
  assumes "1 \<le> m" "m \<le> 12"
  shows "28 \<le> daysIn m y \<and> daysIn m y \<le> 31"
  using month_cases [OF assms]
  by (elim disjE) (simp_all add: daysIn_def daysBefore_simps)

lemma daysBeforeIn_0: "daysBeforeIn y 0 = 0"
  by (simp add: daysBeforeIn_def daysBefore_simps)

lemma daysBeforeIn_12: "daysBeforeIn y 12 = (if isLeap y then 366 else 365)"
  by (simp add: daysBeforeIn_def daysBefore_simps)

lemma daysBeforeIn_mono_aux:
  "0 \<le> m \<Longrightarrow> m + int k \<le> 12 \<Longrightarrow> daysBeforeIn y m \<le> daysBeforeIn y (m + int k)"
proof (induction k)
  case 0
  show ?case by simp
next
  case (Suc k)
  have "daysBeforeIn y (m + int (Suc k)) =
        daysBeforeIn y (m + int (Suc k) - 1) + daysIn (m + int (Suc k)) y"
    using Suc.prems by (intro daysBeforeIn_Suc) simp_all
  moreover have "28 \<le> daysIn (m + int (Suc k)) y"
    using Suc.prems daysIn_bounds [of "m + int (Suc k)" y] by simp
  moreover have "daysBeforeIn y m \<le> daysBeforeIn y (m + int k)"
    using Suc by simp
  moreover have "m + int (Suc k) - 1 = m + int k" by simp
  ultimately show ?case by simp
qed

lemma daysBeforeIn_mono:
  "0 \<le> m \<Longrightarrow> m \<le> m' \<Longrightarrow> m' \<le> 12 \<Longrightarrow> daysBeforeIn y m \<le> daysBeforeIn y m'"
  using daysBeforeIn_mono_aux [of m "nat (m' - m)" y] by simp

lemma find_month_eq:
  assumes "0 \<le> m" "m \<le> 11" "daysBeforeIn y m \<le> yd" "yd < daysBeforeIn y (m + 1)"
  shows "find_month y yd 11 0 = m"
proof -
  have "m + 1 = 1 \<or> m + 1 = 2 \<or> m + 1 = 3 \<or> m + 1 = 4 \<or> m + 1 = 5 \<or> m + 1 = 6 \<or>
        m + 1 = 7 \<or> m + 1 = 8 \<or> m + 1 = 9 \<or> m + 1 = 10 \<or> m + 1 = 11 \<or> m + 1 = 12"
    using assms(1,2) by (intro month_cases) simp_all
  then have "m = 0 \<or> m = 1 \<or> m = 2 \<or> m = 3 \<or> m = 4 \<or> m = 5 \<or> m = 6 \<or> m = 7 \<or> m = 8 \<or>
        m = 9 \<or> m = 10 \<or> m = 11" by simp
  then show ?thesis using assms(3,4)
    by (elim disjE)
      (simp_all add: eval_nat_numeral daysBeforeIn_def daysBefore_simps split: if_splits)
qed

lemma interval_cover:
  fixes f :: "int \<Rightarrow> int"
  shows "f 0 \<le> x \<Longrightarrow> x < f (int k) \<Longrightarrow> \<exists>m. 0 \<le> m \<and> m < int k \<and> f m \<le> x \<and> x < f (m + 1)"
proof (induction k)
  case 0
  then show ?case by simp
next
  case (Suc k)
  show ?case
  proof (cases "x < f (int k)")
    case True
    from Suc.IH [OF Suc.prems(1) True] show ?thesis by force
  next
    case False
    then have "f (int k) \<le> x" by simp
    moreover have "x < f (int k + 1)" using Suc.prems(2) by (simp add: ac_simps)
    ultimately show ?thesis by (intro exI [of _ "int k"]) simp
  qed
qed

lemma find_month_spec:
  assumes "0 \<le> yd" "yd < daysBeforeIn y 12"
  shows "0 \<le> find_month y yd 11 0 \<and> find_month y yd 11 0 \<le> 11 \<and>
         daysBeforeIn y (find_month y yd 11 0) \<le> yd \<and>
         yd < daysBeforeIn y (find_month y yd 11 0 + 1)"
proof -
  have "daysBeforeIn y 0 \<le> yd" "yd < daysBeforeIn y (int 12)"
    using assms by (simp_all add: daysBeforeIn_0)
  from interval_cover [of "daysBeforeIn y", OF this]
  obtain m where m: "0 \<le> m" "m < 12" "daysBeforeIn y m \<le> yd" "yd < daysBeforeIn y (m + 1)"
    by auto
  then have "find_month y yd 11 0 = m" by (intro find_month_eq) simp_all
  with m show ?thesis by simp
qed


lemma nsPerDay_pos: "0 < nsPerDay"
  by (simp add: nsPerDay_def)

lemma div_mod_nsPerDay:
  assumes "0 \<le> tod" "tod < nsPerDay"
  shows "(d * nsPerDay + tod) div nsPerDay = d" "(d * nsPerDay + tod) mod nsPerDay = tod"
proof -
  have e: "d * nsPerDay + tod = nsPerDay * d + tod" by simp
  show "(d * nsPerDay + tod) div nsPerDay = d"
    using e assms by (rule int_div_pos_eq)
  show "(d * nsPerDay + tod) mod nsPerDay = tod"
    using e assms by (rule int_mod_pos_eq)
qed

lemma tod_bounds: "0 \<le> t mod nsPerDay \<and> t mod nsPerDay < nsPerDay"
  using nsPerDay_pos by simp

lemma Date_in_range:
  assumes "1 \<le> m" "m \<le> 12"
  shows "Date y m d tod = (daysSinceEpoch y + daysBeforeIn y (m - 1) + (d - 1)) * nsPerDay + tod"
proof -
  have "(m - 1) div 12 = 0" "(m - 1) mod 12 = m - 1" using assms by simp_all
  then show ?thesis by (simp add: Date_def)
qed

lemma Date_normalise:
  "Date y m d tod = Date (y + (m - 1) div 12) ((m - 1) mod 12 + 1) d tod"
  by (simp add: Date_def)

lemma Time_Date_days:
  assumes m: "1 \<le> m" "m \<le> 12" and d: "1 \<le> d" "d \<le> daysIn m y"
    and that: "0 \<le> tod" "tod < nsPerDay"
  shows "Time_Date ((daysSinceEpoch y + daysBeforeIn y (m - 1) + (d - 1)) * nsPerDay + tod) =
         (y, m, d)"
proof -
  let ?N = "daysSinceEpoch y + daysBeforeIn y (m - 1) + (d - 1)"
  have dv: "(?N * nsPerDay + tod) div nsPerDay = ?N"
    using that by (rule div_mod_nsPerDay)
  have suc: "daysBeforeIn y m = daysBeforeIn y (m - 1) + daysIn m y"
    using m by (rule daysBeforeIn_Suc)
  have lo: "0 \<le> daysBeforeIn y (m - 1)"
    using daysBeforeIn_mono [of 0 "m - 1" y] m by (simp add: daysBeforeIn_0)
  have hi: "daysBeforeIn y m \<le> daysBeforeIn y 12"
    using daysBeforeIn_mono [of m 12 y] m by simp
  have yr: "year_of ?N = y"
  proof (rule year_of_eq)
    show "daysSinceEpoch y \<le> ?N" using lo d by simp
    show "?N < daysSinceEpoch (y + 1)"
      using hi suc d by (simp add: daysSinceEpoch_Suc daysBeforeIn_12 split: if_splits)
  qed
  have mo: "find_month y (daysBeforeIn y (m - 1) + (d - 1)) 11 0 = m - 1"
    using m d suc by (intro find_month_eq) simp_all
  show ?thesis
    unfolding Time_Date_def dv Let_def yr using mo by simp
qed

lemma Time_Date_of_Date:
  assumes "1 \<le> m" "m \<le> 12" "1 \<le> d" "d \<le> daysIn m y" "0 \<le> tod" "tod < nsPerDay"
  shows "Time_Date (Date y m d tod) = (y, m, d)"
  unfolding Date_in_range [OF assms(1,2)] using assms by (rule Time_Date_days)

lemma Date_mod:
  assumes "0 \<le> tod" "tod < nsPerDay"
  shows "Date y m d tod mod nsPerDay = tod"
  unfolding Date_def Let_def using assms by (rule div_mod_nsPerDay)

lemma Time_Date_valid:
  assumes "Time_Date t = (y, m, d)"
  shows "1 \<le> m \<and> m \<le> 12 \<and> 1 \<le> d \<and> d \<le> daysIn m y"
proof -
  define N where "N = t div nsPerDay"
  define yd where "yd = N - daysSinceEpoch (year_of N)"
  define k where "k = find_month (year_of N) yd 11 0"
  have "Time_Date t = (year_of N, k + 1, yd - daysBeforeIn (year_of N) k + 1)"
    by (simp add: Time_Date_def Let_def N_def yd_def k_def)
  with assms have y: "y = year_of N" and mk: "m = k + 1"
    and dd: "d = yd - daysBeforeIn y k + 1"
    by auto
  have ys: "daysSinceEpoch y \<le> N" "N < daysSinceEpoch (y + 1)"
    using year_of_spec [of N] y by simp_all
  have yd0: "0 \<le> yd" and ydh: "yd < daysBeforeIn y 12"
    using ys y by (simp_all add: yd_def daysSinceEpoch_Suc daysBeforeIn_12 split: if_splits)
  from find_month_spec [OF this]
  have k: "0 \<le> k" "k \<le> 11" "daysBeforeIn y k \<le> yd" "yd < daysBeforeIn y (k + 1)"
    unfolding k_def y by simp_all
  have "daysBeforeIn y (k + 1) = daysBeforeIn y (k + 1 - 1) + daysIn (k + 1) y"
    using k by (intro daysBeforeIn_Suc) simp_all
  then show ?thesis using k mk dd by simp
qed

lemma Date_day_overflow:
  assumes "1 \<le> m" "m \<le> 12"
  shows "Date y m (daysIn m y + k) tod = Date y (m + 1) k tod"
proof (cases "m = 12")
  case True
  have "Date y 13 k tod = Date (y + 1) 1 k tod"
    by (subst Date_normalise) simp
  also have "\<dots> = (daysSinceEpoch (y + 1) + (k - 1)) * nsPerDay + tod"
    by (simp add: Date_in_range daysBeforeIn_0)
  finally have a: "Date y 13 k tod = (daysSinceEpoch (y + 1) + (k - 1)) * nsPerDay + tod" .
  have "daysBeforeIn y 12 = daysBeforeIn y (12 - 1) + daysIn 12 y"
    by (rule daysBeforeIn_Suc) simp_all
  then have b: "daysSinceEpoch y + daysBeforeIn y 11 + daysIn 12 y = daysSinceEpoch (y + 1)"
    by (simp add: daysSinceEpoch_Suc daysBeforeIn_12)
  have "Date y 12 (daysIn 12 y + k) tod =
          (daysSinceEpoch y + daysBeforeIn y 11 + (daysIn 12 y + k - 1)) * nsPerDay + tod"
    by (simp add: Date_in_range)
  also have "\<dots> = (daysSinceEpoch (y + 1) + (k - 1)) * nsPerDay + tod"
    using b by (simp add: algebra_simps)
  finally show ?thesis using a True by simp
next
  case False
  then have m1: "1 \<le> m + 1" "m + 1 \<le> 12" using assms by simp_all
  have "daysBeforeIn y m = daysBeforeIn y (m - 1) + daysIn m y"
    using assms by (rule daysBeforeIn_Suc)
  then show ?thesis
    unfolding Date_in_range [OF assms] Date_in_range [OF m1] by (simp add: algebra_simps)
qed


lemma clamp_Date:
  assumes c: "Time_Date t = (Y, M, D)"
    and m: "1 \<le> m'" "m' \<le> 12"
    and res: "res = Date y' m' D (t mod nsPerDay)"
  shows "clamp t res = Date y' m' (min D (daysIn m' y')) (t mod nsPerDay) \<and>
         Time_Date (clamp t res) = (y', m', min D (daysIn m' y'))"
proof -
  let ?T = "t mod nsPerDay"
  have T: "0 \<le> ?T" "?T < nsPerDay" using tod_bounds [of t] by simp_all
  have v: "1 \<le> M" "M \<le> 12" "1 \<le> D" "D \<le> daysIn M Y"
    using Time_Date_valid [OF c] by simp_all
  have D31: "D \<le> 31" using v daysIn_bounds [of M Y] by simp
  have dt: "Day t = D" by (simp add: Day_def c)
  have b: "28 \<le> daysIn m' y'" "daysIn m' y' \<le> 31"
    using daysIn_bounds [OF m, of y'] by simp_all
  show ?thesis
  proof (cases "D \<le> daysIn m' y'")
    case True
    have cr: "Time_Date res = (y', m', D)"
      unfolding res using m v(3) True T by (rule Time_Date_of_Date)
    then have "Day res = D" by (simp add: Day_def)
    then have "clamp t res = res" by (simp add: clamp_def dt)
    with cr True res show ?thesis by (simp add: min_def)
  next
    case False
    define k where "k = D - daysIn m' y'"
    have k: "1 \<le> k" "k \<le> 3" using False D31 b by (simp_all add: k_def)
    define y2 where "y2 = y' + (m' + 1 - 1) div 12"
    define m2 where "m2 = (m' + 1 - 1) mod 12 + 1"
    have m2: "1 \<le> m2" "m2 \<le> 12" by (simp_all add: m2_def)
    have nrm: "Date y' (m' + 1) d tod = Date y2 m2 d tod" for d tod
      unfolding y2_def m2_def by (rule Date_normalise)
    have "res = Date y' m' (daysIn m' y' + k) ?T" by (simp add: res k_def)
    also have "\<dots> = Date y' (m' + 1) k ?T" using m by (rule Date_day_overflow)
    finally have r2: "res = Date y2 m2 k ?T" by (simp add: nrm)
    have "k \<le> daysIn m2 y2" using k daysIn_bounds [OF m2, of y2] by simp
    with m2 k(1) have cr: "Time_Date res = (y2, m2, k)"
      unfolding r2 using T by (intro Time_Date_of_Date) simp_all
    then have dr: "Day res = k" by (simp add: Day_def)
    have kD: "k \<noteq> D" using b by (simp add: k_def)
    have rm: "res mod nsPerDay = ?T" unfolding r2 using T by (rule Date_mod)
    have "clamp t res = AddDate res 0 0 (- k)" using dr kD by (simp add: clamp_def dt)
    also have "\<dots> = Date y2 m2 0 ?T" by (simp add: AddDate_def cr rm)
    also have "\<dots> = Date y' (m' + 1) 0 ?T" by (simp add: nrm)
    also have "\<dots> = Date y' m' (daysIn m' y' + 0) ?T"
      using m by (rule Date_day_overflow [symmetric])
    finally have cl: "clamp t res = Date y' m' (daysIn m' y') ?T" by simp
    have "Time_Date (Date y' m' (daysIn m' y') ?T) = (y', m', daysIn m' y')"
      using m b T by (intro Time_Date_of_Date) simp_all
    with cl False show ?thesis by (simp add: min_def)
  qed
qed

section \<open>Properties of the catch-up loop\<close>

lemma catch_up_unprimed: "catch_up cand clk False k i = Some (i, Suc k)"
  by (subst catch_up.simps) simp

lemma catch_up_post_stop:
  "\<not> Before (cand i) (clk k) \<Longrightarrow> catch_up_post cand clk k i (i, Suc k)"
  by (auto simp: catch_up_post_def)

lemma catch_up_post_step:
  assumes b: "Before (cand i) (clk k)" and p: "catch_up_post cand clk (Suc k) (i + 1) r"
  shows "catch_up_post cand clk k i r"
proof -
  have le: "i + 1 \<le> fst r"
    and sn: "snd r = Suc (Suc k + nat (fst r - (i + 1)))"
    and nb: "\<not> Before (cand (fst r)) (clk (Suc k + nat (fst r - (i + 1))))"
    and al: "\<And>j. i + 1 \<le> j \<Longrightarrow> j < fst r \<Longrightarrow>
               Before (cand j) (clk (Suc k + nat (j - (i + 1))))"
    using p unfolding catch_up_post_def by blast+
  have e: "Suc k + nat (j - (i + 1)) = k + nat (j - i)" if "i + 1 \<le> j" for j
    using that by simp
  have "Before (cand j) (clk (k + nat (j - i)))" if "i \<le> j" "j < fst r" for j
  proof (cases "j = i")
    case True
    then show ?thesis using b by simp
  next
    case False
    then have ij: "i + 1 \<le> j" using that by simp
    then have "Before (cand j) (clk (Suc k + nat (j - (i + 1))))"
      using al that by blast
    then show ?thesis by (simp only: e [OF ij])
  qed
  moreover have "i \<le> fst r" using le by simp
  moreover have "snd r = Suc (k + nat (fst r - i))" using sn unfolding e [OF le] .
  moreover have "\<not> Before (cand (fst r)) (clk (k + nat (fst r - i)))"
    using nb unfolding e [OF le] .
  ultimately show ?thesis unfolding catch_up_post_def by blast
qed

lemma catch_up_partial_aux:
  assumes "catch_up cand clk started k i = Some r"
  shows "started \<longrightarrow> catch_up_post cand clk k i r"
proof (rule catch_up.raw_induct
    [where P = "\<lambda>cand clk started k i r. started \<longrightarrow> catch_up_post cand clk k i r",
      OF _ assms], goal_cases)
  case (1 f cand clk started k i r)
  show ?case
  proof
    assume st: started
    show "catch_up_post cand clk k i r"
    proof (cases "Before (cand i) (clk k)")
      case True
      with 1(2) st have "f cand clk started (Suc k) (i + 1) = Some r"
        by simp
      then have "catch_up_post cand clk (Suc k) (i + 1) r"
        using 1(1) st by blast
      with True show ?thesis by (rule catch_up_post_step)
    next
      case False
      with 1(2) have "r = (i, Suc k)" by simp
      with False show ?thesis by (simp add: catch_up_post_stop)
    qed
  qed
qed

lemma catch_up_partial:
  "catch_up cand clk True k i = Some r \<Longrightarrow> catch_up_post cand clk k i r"
  using catch_up_partial_aux [of cand clk True k i r] by simp

lemma catch_up_total:
  "i \<le> j \<Longrightarrow> \<not> Before (cand j) now \<Longrightarrow>
   \<exists>r. catch_up cand (frozen now) started k i = Some r \<and> fst r \<le> j"
proof (induction "nat (j - i)" arbitrary: i k)
  case 0
  then have "i = j" by simp
  with 0 show ?case by (subst catch_up.simps) (simp add: frozen_def)
next
  case (Suc d)
  show ?case
  proof (cases "Before (cand i) now \<and> started")
    case True
    have "d = nat (j - (i + 1))" "i + 1 \<le> j" using Suc.hyps(2) by simp_all
    from Suc.hyps(1) [OF this Suc.prems(2), of "Suc k"]
    obtain r where "catch_up cand (frozen now) started (Suc k) (i + 1) = Some r" "fst r \<le> j"
      by blast
    with True show ?thesis by (subst catch_up.simps) (simp add: frozen_def)
  next
    case False
    with Suc.prems show ?thesis by (subst catch_up.simps) (auto simp: frozen_def)
  qed
qed

lemma catch_up_diverges:
  assumes "\<And>j. i \<le> j \<Longrightarrow> Before (cand j) (clk (k + nat (j - i)))"
  shows "catch_up cand clk True k i = None"
proof (cases "catch_up cand clk True k i")
  case None
  then show ?thesis .
next
  case (Some r)
  then have "catch_up_post cand clk k i r" by (rule catch_up_partial)
  then have "i \<le> fst r" "\<not> Before (cand (fst r)) (clk (k + nat (fst r - i)))"
    by (simp_all add: catch_up_post_def)
  with assms show ?thesis by blast
qed

section \<open>The loops of the cadences are the catch-up loop\<close>

lemma periodic_loop_catch_up_1:
  assumes "periodic_loop clk k s nxt = Some r"
  shows "nxt = periodic_getCandidate s \<longrightarrow>
   (\<exists>i k'. catch_up (\<lambda>i. periodic_getCandidate (s\<lparr>p_n := i\<rparr>)) clk (p_started s) k (p_n s)
             = Some (i, k')
     \<and> r = (s\<lparr>p_n := i\<rparr>, periodic_getCandidate (s\<lparr>p_n := i\<rparr>), k'))"
proof (rule periodic_loop.raw_induct
    [where P = "\<lambda>clk k s nxt r. nxt = periodic_getCandidate s \<longrightarrow>
   (\<exists>i k'. catch_up (\<lambda>i. periodic_getCandidate (s\<lparr>p_n := i\<rparr>)) clk (p_started s) k (p_n s)
             = Some (i, k')
     \<and> r = (s\<lparr>p_n := i\<rparr>, periodic_getCandidate (s\<lparr>p_n := i\<rparr>), k'))", OF _ assms],
    goal_cases)
  case (1 f clk k s nxt r)
  let ?c = "\<lambda>i. periodic_getCandidate (s\<lparr>p_n := i\<rparr>)"
  show ?case
  proof
    assume nx: "nxt = periodic_getCandidate s"
    then have c: "?c (p_n s) = nxt" by simp
    show "\<exists>i k'. catch_up ?c clk (p_started s) k (p_n s) = Some (i, k')
       \<and> r = (s\<lparr>p_n := i\<rparr>, periodic_getCandidate (s\<lparr>p_n := i\<rparr>), k')"
    proof (cases "Before nxt (clk k) \<and> p_started s")
      case True
      let ?s = "s\<lparr>p_n := p_n s + 1\<rparr>"
      from True 1(2) have "f clk (Suc k) ?s (periodic_getCandidate ?s) = Some r"
        by simp
      from 1(1) [OF this] True c show ?thesis
        by (subst catch_up.simps) simp
    next
      case False
      with 1(2) have "r = (s, nxt, Suc k)" by (auto split: if_splits)
      with False c show ?thesis by (subst catch_up.simps) auto
    qed
  qed
qed

lemma periodic_loop_catch_up_2:
  assumes "catch_up cand clk started k i = Some r"
  shows "\<forall>s. cand = (\<lambda>i. periodic_getCandidate (s\<lparr>p_n := i\<rparr>)) \<and> started = p_started s \<and>
             i = p_n s \<longrightarrow>
           periodic_loop clk k s (periodic_getCandidate s) =
             Some (s\<lparr>p_n := fst r\<rparr>, periodic_getCandidate (s\<lparr>p_n := fst r\<rparr>), snd r)"
proof (rule catch_up.raw_induct
    [where P = "\<lambda>cand clk started k i r.
        \<forall>s. cand = (\<lambda>i. periodic_getCandidate (s\<lparr>p_n := i\<rparr>)) \<and> started = p_started s \<and>
             i = p_n s \<longrightarrow>
           periodic_loop clk k s (periodic_getCandidate s) =
             Some (s\<lparr>p_n := fst r\<rparr>, periodic_getCandidate (s\<lparr>p_n := fst r\<rparr>), snd r)",
      OF _ assms], goal_cases)
  case (1 f cand clk started k i r)
  show ?case
  proof (intro allI impI)
    fix s
    assume a: "cand = (\<lambda>i. periodic_getCandidate (s\<lparr>p_n := i\<rparr>)) \<and> started = p_started s \<and>
               i = p_n s"
    then have c: "cand i = periodic_getCandidate s" by simp
    show "periodic_loop clk k s (periodic_getCandidate s) =
            Some (s\<lparr>p_n := fst r\<rparr>, periodic_getCandidate (s\<lparr>p_n := fst r\<rparr>), snd r)"
    proof (cases "Before (cand i) (clk k) \<and> started")
      case True
      let ?s = "s\<lparr>p_n := p_n s + 1\<rparr>"
      from True 1(2) have "f cand clk started (Suc k) (i + 1) = Some r" by simp
      from 1(1) [OF this] a
      have "periodic_loop clk (Suc k) ?s (periodic_getCandidate ?s) =
              Some (?s\<lparr>p_n := fst r\<rparr>, periodic_getCandidate (?s\<lparr>p_n := fst r\<rparr>), snd r)"
        by simp
      with True a c show ?thesis by (subst periodic_loop.simps) simp
    next
      case False
      with 1(2) have "r = (i, Suc k)" by (auto split: if_splits)
      with False a c show ?thesis by (subst periodic_loop.simps) auto
    qed
  qed
qed

lemma periodic_loop_eq:
  "periodic_loop clk k s (periodic_getCandidate s) =
     map_option (\<lambda>(i, k'). (s\<lparr>p_n := i\<rparr>, periodic_getCandidate (s\<lparr>p_n := i\<rparr>), k'))
       (catch_up (\<lambda>i. periodic_getCandidate (s\<lparr>p_n := i\<rparr>)) clk (p_started s) k (p_n s))"
proof (cases "catch_up (\<lambda>i. periodic_getCandidate (s\<lparr>p_n := i\<rparr>)) clk (p_started s) k (p_n s)")
  case None
  show ?thesis
  proof (cases "periodic_loop clk k s (periodic_getCandidate s)")
    case N: None
    with None show ?thesis by simp
  next
    case (Some r)
    from periodic_loop_catch_up_1 [OF this] None show ?thesis by simp
  qed
next
  case (Some r)
  from periodic_loop_catch_up_2 [OF this] Some show ?thesis
    by (simp add: case_prod_beta)
qed

lemma periodic_next_eq:
  "periodic_next clk s =
     (case catch_up (\<lambda>i. periodic_getCandidate (s\<lparr>p_n := i\<rparr>)) clk (p_started s) 0 (p_n s) of
        None \<Rightarrow> None
      | Some (i, k) \<Rightarrow>
          Some ((IsZero (p_end s) \<or> Before (periodic_getCandidate (s\<lparr>p_n := i\<rparr>)) (p_end s),
                 Sub (periodic_getCandidate (s\<lparr>p_n := i\<rparr>)) (clk k)),
                s\<lparr>p_n := i, p_started := True\<rparr>))"
  unfolding periodic_next_def periodic_loop_eq
  by (cases "p_started s") (auto simp: Let_def split: option.splits)

lemma monthly_loop_catch_up_1:
  assumes "monthly_loop clk k s nxt = Some r"
  shows "nxt = monthly_getCandidate s \<longrightarrow>
   (\<exists>i k'. catch_up (\<lambda>i. monthly_getCandidate (s\<lparr>m_n := i\<rparr>)) clk (m_started s) k (m_n s)
             = Some (i, k')
     \<and> r = (s\<lparr>m_n := i\<rparr>, monthly_getCandidate (s\<lparr>m_n := i\<rparr>), k'))"
proof (rule monthly_loop.raw_induct
    [where P = "\<lambda>clk k s nxt r. nxt = monthly_getCandidate s \<longrightarrow>
   (\<exists>i k'. catch_up (\<lambda>i. monthly_getCandidate (s\<lparr>m_n := i\<rparr>)) clk (m_started s) k (m_n s)
             = Some (i, k')
     \<and> r = (s\<lparr>m_n := i\<rparr>, monthly_getCandidate (s\<lparr>m_n := i\<rparr>), k'))", OF _ assms],
    goal_cases)
  case (1 f clk k s nxt r)
  let ?c = "\<lambda>i. monthly_getCandidate (s\<lparr>m_n := i\<rparr>)"
  show ?case
  proof
    assume nx: "nxt = monthly_getCandidate s"
    then have c: "?c (m_n s) = nxt" by simp
    show "\<exists>i k'. catch_up ?c clk (m_started s) k (m_n s) = Some (i, k')
       \<and> r = (s\<lparr>m_n := i\<rparr>, monthly_getCandidate (s\<lparr>m_n := i\<rparr>), k')"
    proof (cases "Before nxt (clk k) \<and> m_started s")
      case True
      let ?s = "s\<lparr>m_n := m_n s + 1\<rparr>"
      from True 1(2) have "f clk (Suc k) ?s (monthly_getCandidate ?s) = Some r"
        by simp
      from 1(1) [OF this] True c show ?thesis
        by (subst catch_up.simps) simp
    next
      case False
      with 1(2) have "r = (s, nxt, Suc k)" by (auto split: if_splits)
      with False c show ?thesis by (subst catch_up.simps) auto
    qed
  qed
qed

lemma monthly_loop_catch_up_2:
  assumes "catch_up cand clk started k i = Some r"
  shows "\<forall>s. cand = (\<lambda>i. monthly_getCandidate (s\<lparr>m_n := i\<rparr>)) \<and> started = m_started s \<and>
             i = m_n s \<longrightarrow>
           monthly_loop clk k s (monthly_getCandidate s) =
             Some (s\<lparr>m_n := fst r\<rparr>, monthly_getCandidate (s\<lparr>m_n := fst r\<rparr>), snd r)"
proof (rule catch_up.raw_induct
    [where P = "\<lambda>cand clk started k i r.
        \<forall>s. cand = (\<lambda>i. monthly_getCandidate (s\<lparr>m_n := i\<rparr>)) \<and> started = m_started s \<and>
             i = m_n s \<longrightarrow>
           monthly_loop clk k s (monthly_getCandidate s) =
             Some (s\<lparr>m_n := fst r\<rparr>, monthly_getCandidate (s\<lparr>m_n := fst r\<rparr>), snd r)",
      OF _ assms], goal_cases)
  case (1 f cand clk started k i r)
  show ?case
  proof (intro allI impI)
    fix s
    assume a: "cand = (\<lambda>i. monthly_getCandidate (s\<lparr>m_n := i\<rparr>)) \<and> started = m_started s \<and>
               i = m_n s"
    then have c: "cand i = monthly_getCandidate s" by simp
    show "monthly_loop clk k s (monthly_getCandidate s) =
            Some (s\<lparr>m_n := fst r\<rparr>, monthly_getCandidate (s\<lparr>m_n := fst r\<rparr>), snd r)"
    proof (cases "Before (cand i) (clk k) \<and> started")
      case True
      let ?s = "s\<lparr>m_n := m_n s + 1\<rparr>"
      from True 1(2) have "f cand clk started (Suc k) (i + 1) = Some r" by simp
      from 1(1) [OF this] a
      have "monthly_loop clk (Suc k) ?s (monthly_getCandidate ?s) =
              Some (?s\<lparr>m_n := fst r\<rparr>, monthly_getCandidate (?s\<lparr>m_n := fst r\<rparr>), snd r)"
        by simp
      with True a c show ?thesis by (subst monthly_loop.simps) simp
    next
      case False
      with 1(2) have "r = (i, Suc k)" by (auto split: if_splits)
      with False a c show ?thesis by (subst monthly_loop.simps) auto
    qed
  qed
qed

lemma monthly_loop_eq:
  "monthly_loop clk k s (monthly_getCandidate s) =
     map_option (\<lambda>(i, k'). (s\<lparr>m_n := i\<rparr>, monthly_getCandidate (s\<lparr>m_n := i\<rparr>), k'))
       (catch_up (\<lambda>i. monthly_getCandidate (s\<lparr>m_n := i\<rparr>)) clk (m_started s) k (m_n s))"
proof (cases "catch_up (\<lambda>i. monthly_getCandidate (s\<lparr>m_n := i\<rparr>)) clk (m_started s) k (m_n s)")
  case None
  show ?thesis
  proof (cases "monthly_loop clk k s (monthly_getCandidate s)")
    case N: None
    with None show ?thesis by simp
  next
    case (Some r)
    from monthly_loop_catch_up_1 [OF this] None show ?thesis by simp
  qed
next
  case (Some r)
  from monthly_loop_catch_up_2 [OF this] Some show ?thesis
    by (simp add: case_prod_beta)
qed

lemma monthly_next_eq:
  "monthly_next clk s =
     (case catch_up (\<lambda>i. monthly_getCandidate (s\<lparr>m_n := i\<rparr>)) clk (m_started s) 0 (m_n s) of
        None \<Rightarrow> None
      | Some (i, k) \<Rightarrow>
          Some ((IsZero (m_end s) \<or> Before (monthly_getCandidate (s\<lparr>m_n := i\<rparr>)) (m_end s),
                 Sub (monthly_getCandidate (s\<lparr>m_n := i\<rparr>)) (clk k)),
                s\<lparr>m_n := i, m_started := True\<rparr>))"
  unfolding monthly_next_def monthly_loop_eq
  by (cases "m_started s") (auto simp: Let_def split: option.splits)

lemma yearly_loop_catch_up_1:
  assumes "yearly_loop clk k s nxt = Some r"
  shows "nxt = yearly_getCandidate s \<longrightarrow>
   (\<exists>i k'. catch_up (\<lambda>i. yearly_getCandidate (s\<lparr>y_n := i\<rparr>)) clk (y_started s) k (y_n s)
             = Some (i, k')
     \<and> r = (s\<lparr>y_n := i\<rparr>, yearly_getCandidate (s\<lparr>y_n := i\<rparr>), k'))"
proof (rule yearly_loop.raw_induct
    [where P = "\<lambda>clk k s nxt r. nxt = yearly_getCandidate s \<longrightarrow>
   (\<exists>i k'. catch_up (\<lambda>i. yearly_getCandidate (s\<lparr>y_n := i\<rparr>)) clk (y_started s) k (y_n s)
             = Some (i, k')
     \<and> r = (s\<lparr>y_n := i\<rparr>, yearly_getCandidate (s\<lparr>y_n := i\<rparr>), k'))", OF _ assms],
    goal_cases)
  case (1 f clk k s nxt r)
  let ?c = "\<lambda>i. yearly_getCandidate (s\<lparr>y_n := i\<rparr>)"
  show ?case
  proof
    assume nx: "nxt = yearly_getCandidate s"
    then have c: "?c (y_n s) = nxt" by simp
    show "\<exists>i k'. catch_up ?c clk (y_started s) k (y_n s) = Some (i, k')
       \<and> r = (s\<lparr>y_n := i\<rparr>, yearly_getCandidate (s\<lparr>y_n := i\<rparr>), k')"
    proof (cases "Before nxt (clk k) \<and> y_started s")
      case True
      let ?s = "s\<lparr>y_n := y_n s + 1\<rparr>"
      from True 1(2) have "f clk (Suc k) ?s (yearly_getCandidate ?s) = Some r"
        by simp
      from 1(1) [OF this] True c show ?thesis
        by (subst catch_up.simps) simp
    next
      case False
      with 1(2) have "r = (s, nxt, Suc k)" by (auto split: if_splits)
      with False c show ?thesis by (subst catch_up.simps) auto
    qed
  qed
qed

lemma yearly_loop_catch_up_2:
  assumes "catch_up cand clk started k i = Some r"
  shows "\<forall>s. cand = (\<lambda>i. yearly_getCandidate (s\<lparr>y_n := i\<rparr>)) \<and> started = y_started s \<and>
             i = y_n s \<longrightarrow>
           yearly_loop clk k s (yearly_getCandidate s) =
             Some (s\<lparr>y_n := fst r\<rparr>, yearly_getCandidate (s\<lparr>y_n := fst r\<rparr>), snd r)"
proof (rule catch_up.raw_induct
    [where P = "\<lambda>cand clk started k i r.
        \<forall>s. cand = (\<lambda>i. yearly_getCandidate (s\<lparr>y_n := i\<rparr>)) \<and> started = y_started s \<and>
             i = y_n s \<longrightarrow>
           yearly_loop clk k s (yearly_getCandidate s) =
             Some (s\<lparr>y_n := fst r\<rparr>, yearly_getCandidate (s\<lparr>y_n := fst r\<rparr>), snd r)",
      OF _ assms], goal_cases)
  case (1 f cand clk started k i r)
  show ?case
  proof (intro allI impI)
    fix s
    assume a: "cand = (\<lambda>i. yearly_getCandidate (s\<lparr>y_n := i\<rparr>)) \<and> started = y_started s \<and>
               i = y_n s"
    then have c: "cand i = yearly_getCandidate s" by simp
    show "yearly_loop clk k s (yearly_getCandidate s) =
            Some (s\<lparr>y_n := fst r\<rparr>, yearly_getCandidate (s\<lparr>y_n := fst r\<rparr>), snd r)"
    proof (cases "Before (cand i) (clk k) \<and> started")
      case True
      let ?s = "s\<lparr>y_n := y_n s + 1\<rparr>"
      from True 1(2) have "f cand clk started (Suc k) (i + 1) = Some r" by simp
      from 1(1) [OF this] a
      have "yearly_loop clk (Suc k) ?s (yearly_getCandidate ?s) =
              Some (?s\<lparr>y_n := fst r\<rparr>, yearly_getCandidate (?s\<lparr>y_n := fst r\<rparr>), snd r)"
        by simp
      with True a c show ?thesis by (subst yearly_loop.simps) simp
    next
      case False
      with 1(2) have "r = (i, Suc k)" by (auto split: if_splits)
      with False a c show ?thesis by (subst yearly_loop.simps) auto
    qed
  qed
qed

lemma yearly_loop_eq:
  "yearly_loop clk k s (yearly_getCandidate s) =
     map_option (\<lambda>(i, k'). (s\<lparr>y_n := i\<rparr>, yearly_getCandidate (s\<lparr>y_n := i\<rparr>), k'))
       (catch_up (\<lambda>i. yearly_getCandidate (s\<lparr>y_n := i\<rparr>)) clk (y_started s) k (y_n s))"
proof (cases "catch_up (\<lambda>i. yearly_getCandidate (s\<lparr>y_n := i\<rparr>)) clk (y_started s) k (y_n s)")
  case None
  show ?thesis
  proof (cases "yearly_loop clk k s (yearly_getCandidate s)")
    case N: None
    with None show ?thesis by simp
  next
    case (Some r)
    from yearly_loop_catch_up_1 [OF this] None show ?thesis by simp
  qed
next
  case (Some r)
  from yearly_loop_catch_up_2 [OF this] Some show ?thesis
    by (simp add: case_prod_beta)
qed

lemma yearly_next_eq:
  "yearly_next clk s =
     (case catch_up (\<lambda>i. yearly_getCandidate (s\<lparr>y_n := i\<rparr>)) clk (y_started s) 0 (y_n s) of
        None \<Rightarrow> None
      | Some (i, k) \<Rightarrow>
          Some ((IsZero (y_end s) \<or> Before (yearly_getCandidate (s\<lparr>y_n := i\<rparr>)) (y_end s),
                 Sub (yearly_getCandidate (s\<lparr>y_n := i\<rparr>)) (clk k)),
                s\<lparr>y_n := i, y_started := True\<rparr>))"
  unfolding yearly_next_def yearly_loop_eq
  by (cases "y_started s") (auto simp: Let_def split: option.splits)

section \<open>Properties of the cadences\<close>

lemma candidate_Periodic: "candidate (Periodic s) = (\<lambda>i. periodic_getCandidate (s\<lparr>p_n := i\<rparr>))"
  by (rule ext) (simp add: candidate_def)

lemma candidate_Monthly: "candidate (Monthly s) = (\<lambda>i. monthly_getCandidate (s\<lparr>m_n := i\<rparr>))"
  by (rule ext) (simp add: candidate_def)

lemma candidate_Yearly: "candidate (Yearly s) = (\<lambda>i. yearly_getCandidate (s\<lparr>y_n := i\<rparr>))"
  by (rule ext) (simp add: candidate_def)

lemma next_eq:
  "next clk c =
     (case catch_up (candidate c) clk (primed c) 0 (occurrenceIndex c) of
        None \<Rightarrow> None
      | Some (i, k) \<Rightarrow>
          Some ((IsZero (bound c) \<or> Before (candidate c i) (bound c), Sub (candidate c i) (clk k)),
                set_primed (at_index c i)))"
proof (cases c)
  case (Periodic s)
  show ?thesis
    unfolding Periodic next.simps periodic_next_eq candidate_Periodic
    by (simp split: option.splits)
next
  case (Monthly s)
  show ?thesis
    unfolding Monthly next.simps monthly_next_eq candidate_Monthly
    by (simp split: option.splits)
next
  case (Yearly s)
  show ?thesis
    unfolding Yearly next.simps yearly_next_eq candidate_Yearly
    by (simp split: option.splits)
qed

lemma getCandidate_candidate: "getCandidate c = candidate c (occurrenceIndex c)"
  by (cases c) (simp_all add: candidate_def)

lemma candidate_at_index [simp]: "candidate (at_index c i) = candidate c"
  by (cases c) (simp_all add: candidate_def fun_eq_iff)

lemma candidate_set_primed [simp]: "candidate (set_primed c) = candidate c"
  by (cases c)
    (simp_all add: candidate_def fun_eq_iff periodic_getCandidate_def
      monthly_getCandidate_def yearly_getCandidate_def)

lemma fields_at_index [simp]:
  "occurrenceIndex (at_index c i) = i" "primed (at_index c i) = primed c"
  "anchor (at_index c i) = anchor c" "bound (at_index c i) = bound c"
  "step (at_index c i) = step c"
  by (cases c; simp)+

lemma fields_set_primed [simp]:
  "occurrenceIndex (set_primed c) = occurrenceIndex c" "primed (set_primed c)"
  "anchor (set_primed c) = anchor c" "bound (set_primed c) = bound c"
  "step (set_primed c) = step c"
  by (cases c; simp)+

lemma candidate_periodic_formula:
  "candidate (Periodic s) i = p_start s + i * p_ammount s"
  by (simp add: candidate_def periodic_getCandidate_def Add_def)

lemma monthly_getCandidate_clamp:
  "monthly_getCandidate s = clamp (m_start s) (AddDate (m_start s) 0 (m_n s * m_ammount s) 0)"
  by (simp add: monthly_getCandidate_def clamp_def Let_def)

lemma yearly_getCandidate_clamp:
  "yearly_getCandidate s = clamp (y_start s) (AddDate (y_start s) (y_n s * y_ammount s) 0 0)"
  by (simp add: yearly_getCandidate_def clamp_def Let_def)

text \<open>The month reached from month \<open>M\<close> of year \<open>Y\<close> by \<open>k\<close> months.\<close>

lemma candidate_monthly_date:
  assumes c: "Time_Date (m_start s) = (Y, M, D)"
    and y'_def: "y' = Y + (M + i * m_ammount s - 1) div 12"
    and m'_def: "m' = (M + i * m_ammount s - 1) mod 12 + 1"
  shows "candidate (Monthly s) i = Date y' m' (min D (daysIn m' y')) (m_start s mod nsPerDay) \<and>
         Time_Date (candidate (Monthly s) i) = (y', m', min D (daysIn m' y'))"
proof -
  have m: "1 \<le> m'" "m' \<le> 12" by (simp_all add: m'_def)
  have "AddDate (m_start s) 0 (i * m_ammount s) 0 =
          Date Y (M + i * m_ammount s) D (m_start s mod nsPerDay)"
    by (simp add: AddDate_def c)
  also have "\<dots> = Date y' m' D (m_start s mod nsPerDay)"
    unfolding y'_def m'_def by (rule Date_normalise)
  finally have r: "AddDate (m_start s) 0 (i * m_ammount s) 0 =
                     Date y' m' D (m_start s mod nsPerDay)" .
  have e: "candidate (Monthly s) i =
             clamp (m_start s) (AddDate (m_start s) 0 (i * m_ammount s) 0)"
    by (simp add: candidate_def monthly_getCandidate_clamp)
  from clamp_Date [OF c m r] show ?thesis unfolding e .
qed

lemma candidate_yearly_date:
  assumes c: "Time_Date (y_start s) = (Y, M, D)"
    and y'_def: "y' = Y + i * y_ammount s"
  shows "candidate (Yearly s) i = Date y' M (min D (daysIn M y')) (y_start s mod nsPerDay) \<and>
         Time_Date (candidate (Yearly s) i) = (y', M, min D (daysIn M y'))"
proof -
  have m: "1 \<le> M" "M \<le> 12" using Time_Date_valid [OF c] by simp_all
  have r: "AddDate (y_start s) (i * y_ammount s) 0 0 =
          Date y' M D (y_start s mod nsPerDay)"
    by (simp add: AddDate_def c y'_def)
  have e: "candidate (Yearly s) i =
             clamp (y_start s) (AddDate (y_start s) (i * y_ammount s) 0 0)"
    by (simp add: candidate_def yearly_getCandidate_clamp)
  from clamp_Date [OF c m r] show ?thesis unfolding e .
qed

lemma monthly_getCandidate_date:
  assumes c: "Time_Date (m_start s) = (Y, M, D)"
    and y': "y' = Y + (M + m_n s * m_ammount s - 1) div 12"
    and m': "m' = (M + m_n s * m_ammount s - 1) mod 12 + 1"
  shows "monthly_getCandidate s = Date y' m' (min D (daysIn m' y')) (m_start s mod nsPerDay)"
    and "Time_Date (monthly_getCandidate s) = (y', m', min D (daysIn m' y'))"
proof -
  have e: "candidate (Monthly s) (m_n s) = monthly_getCandidate s"
    by (simp add: candidate_def)
  note * = candidate_monthly_date [OF c y' m', unfolded e]
  show "monthly_getCandidate s = Date y' m' (min D (daysIn m' y')) (m_start s mod nsPerDay)"
    using * by (rule conjunct1)
  show "Time_Date (monthly_getCandidate s) = (y', m', min D (daysIn m' y'))"
    using * by (rule conjunct2)
qed

lemma yearly_getCandidate_date:
  assumes c: "Time_Date (y_start s) = (Y, M, D)"
    and y': "y' = Y + y_n s * y_ammount s"
  shows "yearly_getCandidate s = Date y' M (min D (daysIn M y')) (y_start s mod nsPerDay)"
    and "Time_Date (yearly_getCandidate s) = (y', M, min D (daysIn M y'))"
proof -
  have e: "candidate (Yearly s) (y_n s) = yearly_getCandidate s"
    by (simp add: candidate_def)
  note * = candidate_yearly_date [OF c y', unfolded e]
  show "yearly_getCandidate s = Date y' M (min D (daysIn M y')) (y_start s mod nsPerDay)"
    using * by (rule conjunct1)
  show "Time_Date (yearly_getCandidate s) = (y', M, min D (daysIn M y'))"
    using * by (rule conjunct2)
qed

lemma monthly_getCandidate_tod:
  "monthly_getCandidate s mod nsPerDay = m_start s mod nsPerDay"
proof -
  obtain Y M D where c: "Time_Date (m_start s) = (Y, M, D)"
    by (cases "Time_Date (m_start s)") auto
  show ?thesis
    unfolding monthly_getCandidate_date(1) [OF c refl refl]
    using tod_bounds [of "m_start s"] by (intro Date_mod) simp_all
qed

lemma yearly_getCandidate_tod:
  "yearly_getCandidate s mod nsPerDay = y_start s mod nsPerDay"
proof -
  obtain Y M D where c: "Time_Date (y_start s) = (Y, M, D)"
    by (cases "Time_Date (y_start s)") auto
  show ?thesis
    unfolding yearly_getCandidate_date(1) [OF c refl]
    using tod_bounds [of "y_start s"] by (intro Date_mod) simp_all
qed

lemma monthly_clamped:
  assumes c: "Time_Date (m_start s) = (Y, M, D)"
    and y: "y' = Y + (M + m_n s * m_ammount s - 1) div 12"
    and m: "m' = (M + m_n s * m_ammount s - 1) mod 12 + 1" and d: "daysIn m' y' < D"
  shows "Time_Date (monthly_getCandidate s) = (y', m', daysIn m' y')"
proof -
  have "min D (daysIn m' y') = daysIn m' y'" using d by simp
  with monthly_getCandidate_date(2) [OF c y m] show ?thesis by (simp only:)
qed

lemma yearly_clamped:
  assumes c: "Time_Date (y_start t) = (Y, M, D)"
    and y: "y' = Y + y_n t * y_ammount t" and d: "daysIn M y' < D"
  shows "Time_Date (yearly_getCandidate t) = (y', M, daysIn M y')"
proof -
  have "min D (daysIn M y') = daysIn M y'" using d by simp
  with yearly_getCandidate_date(2) [OF c y] show ?thesis by (simp only:)
qed

lemma january_31:
  assumes c: "Time_Date (m_start s) = (Y, 1, 31)" and a: "m_ammount s = 1"
  shows "Time_Date (monthly_getCandidate (s\<lparr>m_n := 1\<rparr>)) = (Y, 2, if isLeap Y then 29 else 28)"
    and "Time_Date (monthly_getCandidate (s\<lparr>m_n := 2\<rparr>)) = (Y, 3, 31)"
proof -
  have c1: "Time_Date (m_start (s\<lparr>m_n := 1\<rparr>)) = (Y, 1, 31)"
    and c2: "Time_Date (m_start (s\<lparr>m_n := 2\<rparr>)) = (Y, 1, 31)" using c by simp_all
  have y1: "Y = Y + (1 + m_n (s\<lparr>m_n := 1\<rparr>) * m_ammount (s\<lparr>m_n := 1\<rparr>) - 1) div 12"
    and m1: "2 = (1 + m_n (s\<lparr>m_n := 1\<rparr>) * m_ammount (s\<lparr>m_n := 1\<rparr>) - 1) mod 12 + 1"
    and y2: "Y = Y + (1 + m_n (s\<lparr>m_n := 2\<rparr>) * m_ammount (s\<lparr>m_n := 2\<rparr>) - 1) div 12"
    and m2: "3 = (1 + m_n (s\<lparr>m_n := 2\<rparr>) * m_ammount (s\<lparr>m_n := 2\<rparr>) - 1) mod 12 + 1"
    using a by simp_all
  have "min 31 (daysIn 2 Y) = (if isLeap Y then 29 else 28)"
    by (simp add: daysIn_def daysBefore_simps)
  with monthly_getCandidate_date(2) [OF c1 y1 m1]
  show "Time_Date (monthly_getCandidate (s\<lparr>m_n := 1\<rparr>)) = (Y, 2, if isLeap Y then 29 else 28)"
    by (simp only:)
  have "min 31 (daysIn 3 Y) = 31"
    by (simp add: daysIn_def daysBefore_simps)
  with monthly_getCandidate_date(2) [OF c2 y2 m2]
  show "Time_Date (monthly_getCandidate (s\<lparr>m_n := 2\<rparr>)) = (Y, 3, 31)"
    by (simp only:)
qed

lemma february_29:
  assumes c: "Time_Date (y_start t) = (Y, 2, 29)" and l: "\<not> isLeap (Y + y_n t * y_ammount t)"
  shows "Time_Date (yearly_getCandidate t) = (Y + y_n t * y_ammount t, 2, 28)"
proof -
  have "min 29 (daysIn 2 (Y + y_n t * y_ammount t)) = 28"
    using l by (simp add: daysIn_def daysBefore_simps)
  with yearly_getCandidate_date(2) [OF c refl] show ?thesis by (simp only:)
qed

lemma at_index_same [simp]: "at_index c (occurrenceIndex c) = c"
  by (cases c) simp_all

lemma next_unprimed:
  assumes "\<not> primed c"
  shows "next clk c =
           Some ((IsZero (bound c) \<or> Before (getCandidate c) (bound c),
                  Sub (getCandidate c) (clk 1)), set_primed c)"
  unfolding next_eq using assms
  by (simp add: catch_up_unprimed getCandidate_candidate)

lemma next_primed:
  assumes "primed c" and "next clk c = Some (r, c')"
  shows "\<exists>i k. catch_up_post (candidate c) clk 0 (occurrenceIndex c) (i, k) \<and>
               c' = set_primed (at_index c i) \<and>
               r = (IsZero (bound c) \<or> Before (candidate c i) (bound c),
                    Sub (candidate c i) (clk k))"
proof -
  from assms(2) obtain i k
    where cu: "catch_up (candidate c) clk (primed c) 0 (occurrenceIndex c) = Some (i, k)"
      and r: "r = (IsZero (bound c) \<or> Before (candidate c i) (bound c),
                   Sub (candidate c i) (clk k))"
      and c': "c' = set_primed (at_index c i)"
    unfolding next_eq by (auto split: option.splits)
  from cu assms(1) have "catch_up_post (candidate c) clk 0 (occurrenceIndex c) (i, k)"
    by (intro catch_up_partial) simp
  with r c' show ?thesis by blast
qed

lemma next_total:
  assumes "occurrenceIndex c \<le> j" "\<not> Before (candidate c j) now"
  shows "\<exists>r. next (frozen now) c = Some r"
proof -
  from catch_up_total [of "occurrenceIndex c" j "candidate c" now "primed c" 0, OF assms]
  obtain r where "catch_up (candidate c) (frozen now) (primed c) 0 (occurrenceIndex c) = Some r"
    by blast
  then show ?thesis unfolding next_eq by (cases r) simp
qed

lemma next_frame:
  assumes "next clk c = Some (r, c')"
  shows "occurrenceIndex c \<le> occurrenceIndex c'" "primed c'" "anchor c' = anchor c"
    "bound c' = bound c" "step c' = step c" "candidate c' = candidate c"
    "fst r = (IsZero (bound c) \<or> Before (getCandidate c') (bound c))"
    "\<exists>k. snd r = Sub (getCandidate c') (clk k)"
proof -
  from assms obtain i k
    where cu: "catch_up (candidate c) clk (primed c) 0 (occurrenceIndex c) = Some (i, k)"
      and r: "r = (IsZero (bound c) \<or> Before (candidate c i) (bound c),
                   Sub (candidate c i) (clk k))"
      and c': "c' = set_primed (at_index c i)"
    unfolding next_eq by (auto split: option.splits)
  have le: "occurrenceIndex c \<le> i"
  proof (cases "primed c")
    case True
    with cu have "catch_up_post (candidate c) clk 0 (occurrenceIndex c) (i, k)"
      by (intro catch_up_partial) simp
    then show ?thesis by (simp add: catch_up_post_def)
  next
    case False
    with cu show ?thesis by (simp add: catch_up_unprimed)
  qed
  have g: "getCandidate c' = candidate c i"
    by (simp add: c' getCandidate_candidate)
  show "occurrenceIndex c \<le> occurrenceIndex c'" using le by (simp add: c')
  show "primed c'" "anchor c' = anchor c" "bound c' = bound c" "step c' = step c"
    "candidate c' = candidate c"
    by (simp_all add: c')
  show "fst r = (IsZero (bound c) \<or> Before (getCandidate c') (bound c))"
    by (simp add: r g)
  show "\<exists>k. snd r = Sub (getCandidate c') (clk k)"
    by (auto simp: r g)
qed

lemma daysSinceEpoch_ge: "int k \<le> daysSinceEpoch (1 + int k)"
proof (induction k)
  case 0
  show ?case by (simp add: daysSinceEpoch_def)
next
  case (Suc k)
  have st: "daysSinceEpoch y + 365 \<le> daysSinceEpoch (y + 1)" for y
    by (simp add: daysSinceEpoch_Suc)
  have e: "1 + int (Suc k) = (1 + int k) + 1" by simp
  have "int (Suc k) \<le> daysSinceEpoch (1 + int k) + 365" using Suc by simp
  also have "\<dots> \<le> daysSinceEpoch ((1 + int k) + 1)" by (rule st)
  finally show ?case unfolding e .
qed

lemma Date_lower:
  assumes "1 \<le> m" "m \<le> 12" "1 \<le> d" "0 \<le> tod"
  shows "daysSinceEpoch y * nsPerDay \<le> Date y m d tod"
proof -
  have "0 \<le> daysBeforeIn y (m - 1)"
    using daysBeforeIn_mono [of 0 "m - 1" y] assms by (simp add: daysBeforeIn_0)
  then have "daysSinceEpoch y \<le> daysSinceEpoch y + daysBeforeIn y (m - 1) + (d - 1)"
    using assms by simp
  then have "daysSinceEpoch y * nsPerDay \<le>
             (daysSinceEpoch y + daysBeforeIn y (m - 1) + (d - 1)) * nsPerDay"
    using nsPerDay_pos by (intro mult_right_mono) simp_all
  then show ?thesis unfolding Date_in_range [OF assms(1,2)] using assms(4) by linarith
qed

text \<open>A year whose first day is not before the instant \<open>now\<close>.\<close>

lemma year_not_before:
  assumes "1 + max 0 (now div nsPerDay + 1) \<le> y"
  shows "now \<le> daysSinceEpoch y * nsPerDay"
proof -
  define N where "N = max 0 (now div nsPerDay + 1)"
  have N0: "0 \<le> N" by (simp add: N_def)
  have "int (nat N) \<le> daysSinceEpoch (1 + int (nat N))" by (rule daysSinceEpoch_ge)
  then have "N \<le> daysSinceEpoch (1 + N)" using N0 by simp
  also have "\<dots> \<le> daysSinceEpoch y" using assms by (intro daysSinceEpoch_mono) (simp add: N_def)
  finally have "N * nsPerDay \<le> daysSinceEpoch y * nsPerDay"
    using nsPerDay_pos by (intro mult_right_mono) simp_all
  moreover have "now < (now div nsPerDay + 1) * nsPerDay"
  proof -
    define q r where "q = now div nsPerDay" and "r = now mod nsPerDay"
    have "now = nsPerDay * q + r" by (simp add: q_def r_def)
    moreover have "r < nsPerDay" using nsPerDay_pos by (simp add: r_def)
    ultimately have "now < (q + 1) * nsPerDay" by (simp add: algebra_simps)
    then show ?thesis by (simp only: q_def)
  qed
  moreover have "(now div nsPerDay + 1) * nsPerDay \<le> N * nsPerDay"
    using nsPerDay_pos by (intro mult_right_mono) (simp_all add: N_def)
  ultimately show ?thesis by linarith
qed


lemma mult_ge_self:
  fixes j a :: int
  assumes "0 \<le> j" "1 \<le> a"
  shows "j \<le> j * a"
  using mult_left_mono [OF assms(2) assms(1)] by simp

lemma periodic_unbounded:
  assumes "0 < p_ammount s"
  shows "\<exists>j. i0 \<le> j \<and> \<not> Before (candidate (Periodic s) j) now"
proof -
  define j where "j = max i0 (max 0 (now - p_start s))"
  have "0 \<le> j" "now - p_start s \<le> j" by (simp_all add: j_def)
  moreover from this assms have "j \<le> j * p_ammount s" by (intro mult_ge_self) simp_all
  ultimately have "now \<le> p_start s + j * p_ammount s" by linarith
  then have "\<not> Before (candidate (Periodic s) j) now"
    by (simp add: candidate_periodic_formula Before_def)
  moreover have "i0 \<le> j" by (simp add: j_def)
  ultimately show ?thesis by blast
qed

lemma monthly_unbounded:
  assumes "0 < m_ammount s"
  shows "\<exists>j. i0 \<le> j \<and> \<not> Before (candidate (Monthly s) j) now"
proof -
  obtain Y M D where c: "Time_Date (m_start s) = (Y, M, D)"
    by (cases "Time_Date (m_start s)") auto
  have v: "1 \<le> M" "1 \<le> D" using Time_Date_valid [OF c] by simp_all
  define q where "q = max 0 (1 + max 0 (now div nsPerDay + 1) - Y)"
  define j where "j = max i0 (12 * q)"
  define k where "k = M + j * m_ammount s - 1"
  define y' m' where "y' = Y + k div 12" and "m' = k mod 12 + 1"
  have q0: "0 \<le> q" by (simp add: q_def)
  have j0: "0 \<le> j" "12 * q \<le> j" using q0 by (simp_all add: j_def)
  have "j \<le> j * m_ammount s" using j0 assms by (intro mult_ge_self) simp_all
  then have "12 * q \<le> k" using j0 v by (simp add: k_def)
  then have "(12 * q) div 12 \<le> k div 12" by (intro zdiv_mono1) simp_all
  then have "q \<le> k div 12" by simp
  then have y: "1 + max 0 (now div nsPerDay + 1) \<le> y'" by (simp add: y'_def q_def)
  have m: "1 \<le> m'" "m' \<le> 12" by (simp_all add: m'_def)
  have d: "1 \<le> min D (daysIn m' y')" using v daysIn_bounds [OF m, of y'] by simp
  have "candidate (Monthly s) j = Date y' m' (min D (daysIn m' y')) (m_start s mod nsPerDay)"
    using candidate_monthly_date [OF c, of y' j m'] by (simp add: y'_def m'_def k_def)
  moreover have "daysSinceEpoch y' * nsPerDay \<le>
                 Date y' m' (min D (daysIn m' y')) (m_start s mod nsPerDay)"
    using m d tod_bounds [of "m_start s"] by (intro Date_lower) simp_all
  moreover have "now \<le> daysSinceEpoch y' * nsPerDay" using y by (rule year_not_before)
  ultimately have "\<not> Before (candidate (Monthly s) j) now" by (simp add: Before_def)
  moreover have "i0 \<le> j" by (simp add: j_def)
  ultimately show ?thesis by blast
qed

lemma yearly_unbounded:
  assumes "0 < y_ammount s"
  shows "\<exists>j. i0 \<le> j \<and> \<not> Before (candidate (Yearly s) j) now"
proof -
  obtain Y M D where c: "Time_Date (y_start s) = (Y, M, D)"
    by (cases "Time_Date (y_start s)") auto
  have v: "1 \<le> M" "M \<le> 12" "1 \<le> D" using Time_Date_valid [OF c] by simp_all
  define q where "q = max 0 (1 + max 0 (now div nsPerDay + 1) - Y)"
  define j where "j = max i0 q"
  define y' where "y' = Y + j * y_ammount s"
  have q0: "0 \<le> q" by (simp add: q_def)
  have j0: "0 \<le> j" "q \<le> j" using q0 by (simp_all add: j_def)
  have "j \<le> j * y_ammount s" using j0 assms by (intro mult_ge_self) simp_all
  then have y: "1 + max 0 (now div nsPerDay + 1) \<le> y'" using j0 by (simp add: y'_def q_def)
  have d: "1 \<le> min D (daysIn M y')" using v daysIn_bounds [OF v(1,2), of y'] by simp
  have "candidate (Yearly s) j = Date y' M (min D (daysIn M y')) (y_start s mod nsPerDay)"
    using candidate_yearly_date [OF c, of y' j] by (simp add: y'_def)
  moreover have "daysSinceEpoch y' * nsPerDay \<le>
                 Date y' M (min D (daysIn M y')) (y_start s mod nsPerDay)"
    using v d tod_bounds [of "y_start s"] by (intro Date_lower) simp_all
  moreover have "now \<le> daysSinceEpoch y' * nsPerDay" using y by (rule year_not_before)
  ultimately have "\<not> Before (candidate (Yearly s) j) now" by (simp add: Before_def)
  moreover have "i0 \<le> j" by (simp add: j_def)
  ultimately show ?thesis by blast
qed

lemma candidate_unbounded:
  assumes "0 < step c"
  shows "\<exists>j. i0 \<le> j \<and> \<not> Before (candidate c j) now"
  using assms periodic_unbounded monthly_unbounded yearly_unbounded
  by (cases c) simp_all

lemma next_returns:
  assumes "0 < step c"
  shows "\<exists>r. next (frozen now) c = Some r"
proof -
  from candidate_unbounded [OF assms, of "occurrenceIndex c" now]
  obtain j where "occurrenceIndex c \<le> j" "\<not> Before (candidate c j) now" by blast
  then show ?thesis by (rule next_total)
qed

lemma next_primed_frozen:
  assumes p: "primed c" and n: "next (frozen now) c = Some (r, c')"
  shows "\<exists>i. c' = set_primed (at_index c i) \<and> occurrenceIndex c \<le> i \<and>
             \<not> Before (candidate c i) now \<and>
             (\<forall>j. occurrenceIndex c \<le> j \<and> j < i \<longrightarrow> Before (candidate c j) now) \<and>
             r = (IsZero (bound c) \<or> Before (candidate c i) (bound c), Sub (candidate c i) now)"
proof -
  from next_primed [OF p n] obtain i k
    where post: "catch_up_post (candidate c) (frozen now) 0 (occurrenceIndex c) (i, k)"
      and c': "c' = set_primed (at_index c i)"
      and r: "r = (IsZero (bound c) \<or> Before (candidate c i) (bound c),
                   Sub (candidate c i) (frozen now k))"
    by blast
  from post have "occurrenceIndex c \<le> i" "\<not> Before (candidate c i) now"
    "\<forall>j. occurrenceIndex c \<le> j \<and> j < i \<longrightarrow> Before (candidate c j) now"
    by (simp_all add: catch_up_post_def frozen_def)
  with c' r show ?thesis by (auto simp: frozen_def)
qed

section \<open>The claims\<close>

subsection \<open>The catch-up loop of \<open>next\<close>\<close>




subsection \<open>Day clamping\<close>



subsection \<open>The execution ceiling of a Job\<close>

lemma run_times: "job_times (run j) = job_times j"
  by (simp add: run_def)

lemma run_bounded:
  "job_times j \<noteq> -1 \<Longrightarrow> job_n j \<le> job_times j \<Longrightarrow>
   job_n (run j) = min (job_n j + 1) (job_times j)"
  by (simp add: run_def)

lemma run_bounded_invoked:
  "job_times j \<noteq> -1 \<Longrightarrow> job_n j \<le> job_times j \<Longrightarrow>
   int (invoked (run j)) = int (invoked j) + (min (job_n j + 1) (job_times j) - job_n j)"
  by (simp add: run_def)

lemma runs_bounded:
  "job_times j \<noteq> -1 \<Longrightarrow> job_n j \<le> job_times j \<Longrightarrow>
   job_n (runs r j) = min (job_n j + int r) (job_times j) \<and>
   int (invoked (runs r j)) =
     int (invoked j) + (min (job_n j + int r) (job_times j) - job_n j)"
proof (induction r arbitrary: j)
  case 0
  then show ?case by simp
next
  case (Suc r)
  have t: "job_times (run j) \<noteq> -1" and le: "job_n (run j) \<le> job_times (run j)"
    using Suc.prems by (simp_all add: run_def)
  have a: "job_n (run j) = min (job_n j + 1) (job_times j)"
    using Suc.prems by (rule run_bounded)
  have b: "int (invoked (run j)) =
             int (invoked j) + (min (job_n j + 1) (job_times j) - job_n j)"
    using Suc.prems by (rule run_bounded_invoked)
  show ?case
    using Suc.IH [OF t le] Suc.prems unfolding runs.simps a b run_times
    by auto
qed

text \<open>
  C6, for a ceiling that is not negative. For a job built by \<open>Schedule\<close> and
  \<open>NTimes k\<close> with a ceiling \<open>k \<ge> 0\<close>, after any number \<open>r\<close> of calls of \<open>run\<close> the counter is at most \<open>k\<close>,
  it equals the number of invocations of the task, and that number is \<open>min r k\<close>: the
  task is invoked only while the counter is strictly below the ceiling. With a ceiling
  of 2, two or more calls of \<open>run\<close> give exactly 2 invocations.
\<close>

theorem job_ceiling:
  "0 \<le> k \<Longrightarrow>
   job_n (runs r (NTimes k Schedule)) \<le> k \<and>
   job_n (runs r (NTimes k Schedule)) = int (invoked (runs r (NTimes k Schedule))) \<and>
   invoked (runs r (NTimes k Schedule)) = min r (nat k) \<and>
   (2 \<le> r \<longrightarrow> invoked (runs r (Twice Schedule)) = 2)"
proof -
  assume k: "0 \<le> k"
  have *: "job_n (runs r (NTimes k' Schedule)) = min (int r) k' \<and>
           int (invoked (runs r (NTimes k' Schedule))) = min (int r) k'"
    if "0 \<le> k'" for k'
  proof -
    have t: "job_times (NTimes k' Schedule) \<noteq> -1"
      and le: "job_n (NTimes k' Schedule) \<le> job_times (NTimes k' Schedule)"
      using that by (simp_all add: NTimes_def Schedule_def)
    show ?thesis
      using runs_bounded [OF t le, of r] by (simp add: NTimes_def Schedule_def)
  qed
  from * [of k] * [of 2] k show ?thesis by (auto simp: Twice_def)
qed

theorem job_ceiling_witness:
  "(0::int) \<le> 2 \<and> job_n (runs 5 (NTimes 2 Schedule)) \<le> 2 \<and>
   invoked (runs 5 (Twice Schedule)) = 2"
  using job_ceiling [of 2 5] by (simp add: Twice_def)

text \<open>
  A ceiling below \<open>-1\<close> is not the sentinel, the task never runs, and the counter
  (0) is above the ceiling.
\<close>

theorem job_negative_ceiling_counterexample:
  "job_times (runs 3 (NTimes (- 2) Schedule)) \<noteq> - 1 \<and>
   \<not> job_n (runs 3 (NTimes (- 2) Schedule)) \<le> job_times (runs 3 (NTimes (- 2) Schedule))"
  by (simp add: numeral_3_eq_3 NTimes_def Schedule_def run_def)

subsection \<open>Validation at construction\<close>

text \<open>
  C4. A zero step amount (for the periodic cadence also a zero unit) makes the
  constructor return the error and no cadence; a constructor fails in no other case.
  \<open>next\<close> has no error result (its result is the pair of the source) and checks
  nothing: on a periodic cadence whose period is zero, built without the constructor, an
  unprimed call returns as on any other cadence.
\<close>

theorem zero_step_rejected:
  "newPeriodic now start0 end0 0 unit0 skip = Inl ''0 is not a valid period'' \<and>
   newPeriodic now start0 end0 ammount 0 skip = Inl ''0 is not a valid period'' \<and>
   newMonthly now start0 end0 0 skip = Inl ''0 months is not a valid period'' \<and>
   newYearly now start0 end0 0 skip = Inl ''0 years is not a valid period'' \<and>
   isl (newPeriodic now start0 end0 ammount unit0 skip) = (ammount = 0 \<or> unit0 = 0) \<and>
   isl (newMonthly now start0 end0 ammount skip) = (ammount = 0) \<and>
   isl (newYearly now start0 end0 ammount skip) = (ammount = 0) \<and>
   next clk (Periodic \<lparr>p_start = start0, p_end = end0, p_started = False,
                         p_ammount = 0, p_n = k\<rparr>) =
     Some ((IsZero end0 \<or> Before start0 end0, Sub start0 (clk 1)),
           Periodic \<lparr>p_start = start0, p_end = end0, p_started = True, p_ammount = 0, p_n = k\<rparr>)"
proof -
  let ?z = "Periodic \<lparr>p_start = start0, p_end = end0, p_started = False,
                       p_ammount = 0, p_n = k\<rparr>"
  have "\<not> primed ?z" by simp
  from next_unprimed [OF this, of clk]
  have "next clk ?z =
     Some ((IsZero end0 \<or> Before start0 end0, Sub start0 (clk 1)),
           Periodic \<lparr>p_start = start0, p_end = end0, p_started = True, p_ammount = 0, p_n = k\<rparr>)"
    by (simp add: periodic_getCandidate_def Add_def)
  then show ?thesis
    by (simp add: newPeriodic_def newMonthly_def newYearly_def Let_def)
qed

subsection \<open>The has-more flag\<close>

lemma next_stay:
  assumes "\<not> Before (getCandidate c) now"
  shows "next (frozen now) c =
           Some ((IsZero (bound c) \<or> Before (getCandidate c) (bound c),
                  Sub (getCandidate c) now), set_primed c)"
  unfolding next_eq using assms
  by (subst catch_up.simps) (simp add: getCandidate_candidate frozen_def)

lemma next_advance_one:
  assumes "primed c" "Before (getCandidate c) now"
    and "\<not> Before (candidate c (occurrenceIndex c + 1)) now"
  shows "next (frozen now) c =
           Some ((IsZero (bound c) \<or> Before (candidate c (occurrenceIndex c + 1)) (bound c),
                  Sub (candidate c (occurrenceIndex c + 1)) now),
                 set_primed (at_index c (occurrenceIndex c + 1)))"
  unfolding next_eq using assms
  by (subst catch_up.simps, subst catch_up.simps)
    (simp add: getCandidate_candidate frozen_def)

text \<open>
  C5. Whenever \<open>next\<close> returns, under any clock, its flag is true exactly when the end
  instant is unset (the zero instant) or the candidate it computed, which is the
  candidate of the cadence it leaves behind, is strictly before the end; with a positive
  step \<open>next(now)\<close> does return. If only the candidates of the indices 0, 1 and 2 are
  before the end, and the clock of each later call has passed the occurrence reported
  before it but not the following one, four calls on a fresh cadence report the flags
  true, true, true, false.
\<close>

theorem has_more_flag:
  "(next clk c = Some ((hasMore, wait), c') \<longrightarrow>
      hasMore = (IsZero (bound c) \<or> Before (getCandidate c') (bound c))) \<and>
   (0 < step c \<longrightarrow>
      (\<exists>h w d. next (frozen now) c = Some ((h, w), d) \<and>
          h = (IsZero (bound c) \<or> Before (getCandidate d) (bound c)))) \<and>
   (\<not> primed c \<and> occurrenceIndex c = 0 \<and> \<not> IsZero (bound c) \<and>
    Before (candidate c 0) (bound c) \<and> Before (candidate c 1) (bound c) \<and>
    Before (candidate c 2) (bound c) \<and> \<not> Before (candidate c 3) (bound c) \<and>
    Before (candidate c 0) t1 \<and> \<not> Before (candidate c 1) t1 \<and>
    Before (candidate c 1) t2 \<and> \<not> Before (candidate c 2) t2 \<and>
    Before (candidate c 2) t3 \<and> \<not> Before (candidate c 3) t3 \<longrightarrow>
      (\<exists>rs d. nexts [frozen t0, frozen t1, frozen t2, frozen t3] c = Some (rs, d) \<and>
          map fst rs = [True, True, True, False]))"
proof (intro conjI impI)
  assume n: "next clk c = Some ((hasMore, wait), c')"
  from next_frame(7) [OF n] show "hasMore = (IsZero (bound c) \<or> Before (getCandidate c') (bound c))"
    by simp
next
  assume "0 < step c"
  then obtain r where "next (frozen now) c = Some r" using next_returns by blast
  then obtain h w d where n: "next (frozen now) c = Some ((h, w), d)"
    by (cases r) auto
  from next_frame(7) [OF n] n
  show "\<exists>h w d. next (frozen now) c = Some ((h, w), d) \<and>
          h = (IsZero (bound c) \<or> Before (getCandidate d) (bound c))"
    by auto
next
  assume a: "\<not> primed c \<and> occurrenceIndex c = 0 \<and> \<not> IsZero (bound c) \<and>
    Before (candidate c 0) (bound c) \<and> Before (candidate c 1) (bound c) \<and>
    Before (candidate c 2) (bound c) \<and> \<not> Before (candidate c 3) (bound c) \<and>
    Before (candidate c 0) t1 \<and> \<not> Before (candidate c 1) t1 \<and>
    Before (candidate c 1) t2 \<and> \<not> Before (candidate c 2) t2 \<and>
    Before (candidate c 2) t3 \<and> \<not> Before (candidate c 3) t3"
  define c0 where "c0 = set_primed c"
  define c1 where "c1 = set_primed (at_index c0 1)"
  define c2 where "c2 = set_primed (at_index c1 2)"
  define c3 where "c3 = set_primed (at_index c2 3)"
  have f0: "primed c0" "occurrenceIndex c0 = 0" "candidate c0 = candidate c" "bound c0 = bound c"
    using a by (simp_all add: c0_def)
  have f1: "primed c1" "occurrenceIndex c1 = 1" "candidate c1 = candidate c" "bound c1 = bound c"
    using f0 by (simp_all add: c1_def)
  have f2: "primed c2" "occurrenceIndex c2 = 2" "candidate c2 = candidate c" "bound c2 = bound c"
    using f1 by (simp_all add: c2_def)
  have n0: "next (frozen t0) c = Some ((True, Sub (getCandidate c) (frozen t0 1)), c0)"
    using a next_unprimed [of c "frozen t0"] by (simp add: c0_def getCandidate_candidate)
  have n1: "next (frozen t1) c0 = Some ((True, Sub (candidate c 1) t1), c1)"
    using a f0 next_advance_one [of c0 t1] by (simp add: c1_def getCandidate_candidate)
  have n2: "next (frozen t2) c1 = Some ((True, Sub (candidate c 2) t2), c2)"
    using a f1 next_advance_one [of c1 t2] by (simp add: c2_def getCandidate_candidate)
  have n3: "next (frozen t3) c2 = Some ((False, Sub (candidate c 3) t3), c3)"
    using a f2 next_advance_one [of c2 t3] by (simp add: c3_def getCandidate_candidate)
  show "\<exists>rs d. nexts [frozen t0, frozen t1, frozen t2, frozen t3] c = Some (rs, d) \<and>
          map fst rs = [True, True, True, False]"
    by (simp add: n0 n1 n2 n3)
qed

theorem has_more_flag_witness:
  "next (frozen 1000)
     (Periodic \<lparr>p_start = 1000, p_end = 1025, p_started = False, p_ammount = 10, p_n = 0\<rparr>) =
     Some ((True, 0),
       Periodic \<lparr>p_start = 1000, p_end = 1025, p_started = True, p_ammount = 10, p_n = 0\<rparr>) \<and>
   (\<exists>rs d. nexts [frozen 1000, frozen 1001, frozen 1011, frozen 1021]
       (Periodic \<lparr>p_start = 1000, p_end = 1025, p_started = False, p_ammount = 10, p_n = 0\<rparr>) =
       Some (rs, d) \<and> map fst rs = [True, True, True, False])"
proof -
  let ?c = "Periodic \<lparr>p_start = 1000, p_end = 1025, p_started = False, p_ammount = 10, p_n = 0\<rparr>"
  let ?d = "Periodic \<lparr>p_start = 1000, p_end = 1025, p_started = True, p_ammount = 10, p_n = 0\<rparr>"
  have n: "next (frozen 1000) ?c = Some ((True, 0), ?d)"
    using next_unprimed [of ?c "frozen 1000"]
    by (simp add: periodic_getCandidate_def Add_def Sub_def Before_def IsZero_def frozen_def)
  have c: "candidate ?c j = 1000 + j * 10" for j
    by (simp add: candidate_periodic_formula)
  show ?thesis
    using has_more_flag [of "frozen 1000" ?c True 0 ?d 1000 1001 1011 1021 1000] n
    by (simp add: c Before_def IsZero_def)
qed

subsection \<open>Skipping the first occurrence\<close>

lemma nexts_frame:
  "nexts clks c = Some (rs, c') \<Longrightarrow>
   occurrenceIndex c \<le> occurrenceIndex c' \<and> anchor c' = anchor c \<and> bound c' = bound c \<and>
   step c' = step c \<and> candidate c' = candidate c \<and> length rs = length clks"
proof (induction clks arbitrary: c rs)
  case Nil
  then show ?case by simp
next
  case (Cons clk clks)
  from Cons.prems obtain r d rs' where n: "next clk c = Some (r, d)"
    and ns: "nexts clks d = Some (rs', c')" and rs: "rs = r # rs'"
    by (auto split: option.splits)
  from next_frame [OF n] Cons.IH [OF ns] rs show ?case by simp
qed

lemma month_shift_neq:
  fixes M k :: int
  assumes "1 \<le> M" "M \<le> 12" "k \<noteq> 0"
  shows "(Y + (M + k - 1) div 12, (M + k - 1) mod 12 + 1) \<noteq> (Y, M)"
proof
  assume "(Y + (M + k - 1) div 12, (M + k - 1) mod 12 + 1) = (Y, M)"
  then have d: "(M + k - 1) div 12 = 0" and m: "(M + k - 1) mod 12 = M - 1" by simp_all
  have "M + k - 1 = 12 * ((M + k - 1) div 12) + (M + k - 1) mod 12" by simp
  then have "M + k - 1 = M - 1" unfolding d m by simp
  with assms(3) show False by simp
qed

lemma candidate_monthly_Time_Date:
  assumes "Time_Date (m_start s) = (Y, M, D)"
  shows "Time_Date (candidate (Monthly s) i) =
           (Y + (M + i * m_ammount s - 1) div 12, (M + i * m_ammount s - 1) mod 12 + 1,
            min D (daysIn ((M + i * m_ammount s - 1) mod 12 + 1)
                          (Y + (M + i * m_ammount s - 1) div 12)))"
  using candidate_monthly_date [OF assms refl refl] by (rule conjunct2)

lemma candidate_yearly_Time_Date:
  assumes "Time_Date (y_start s) = (Y, M, D)"
  shows "Time_Date (candidate (Yearly s) i) =
           (Y + i * y_ammount s, M, min D (daysIn M (Y + i * y_ammount s)))"
  using candidate_yearly_date [OF assms refl] by (rule conjunct2)

lemma candidate_neq:
  assumes s: "step c \<noteq> 0" and i: "i \<noteq> 0"
  shows "candidate c i \<noteq> anchor c" "candidate c i \<noteq> candidate c 0"
proof -
  have "candidate c i \<noteq> anchor c \<and> candidate c i \<noteq> candidate c 0"
  proof (cases c)
    case (Periodic p)
    with s i show ?thesis by (simp add: candidate_periodic_formula)
  next
    case (Monthly p)
    obtain Y M D where t: "Time_Date (m_start p) = (Y, M, D)"
      by (cases "Time_Date (m_start p)") auto
    have v: "1 \<le> M" "M \<le> 12" "1 \<le> D" "D \<le> daysIn M Y" using Time_Date_valid [OF t] by simp_all
    have k: "i * m_ammount p \<noteq> 0" using s i Monthly by simp
    have ne: "(Y + (M + i * m_ammount p - 1) div 12, (M + i * m_ammount p - 1) mod 12 + 1) \<noteq> (Y, M)"
      using v(1,2) k by (rule month_shift_neq)
    have ci: "fst (Time_Date (candidate (Monthly p) i)) = Y + (M + i * m_ammount p - 1) div 12"
      "fst (snd (Time_Date (candidate (Monthly p) i))) = (M + i * m_ammount p - 1) mod 12 + 1"
      by (simp_all add: candidate_monthly_Time_Date [OF t])
    have c0: "fst (Time_Date (candidate (Monthly p) 0)) = Y"
      "fst (snd (Time_Date (candidate (Monthly p) 0))) = M"
      using v by (simp_all add: candidate_monthly_Time_Date [OF t])
    have "Time_Date (candidate (Monthly p) i) \<noteq> Time_Date (m_start p)"
      using ne ci t by (metis fst_conv snd_conv)
    moreover have "Time_Date (candidate (Monthly p) i) \<noteq> Time_Date (candidate (Monthly p) 0)"
      using ne ci c0 by metis
    ultimately show ?thesis using Monthly by auto
  next
    case (Yearly p)
    obtain Y M D where t: "Time_Date (y_start p) = (Y, M, D)"
      by (cases "Time_Date (y_start p)") auto
    have k: "i * y_ammount p \<noteq> 0" using s i Yearly by simp
    have ci: "fst (Time_Date (candidate (Yearly p) i)) = Y + i * y_ammount p"
      by (simp add: candidate_yearly_Time_Date [OF t])
    have c0: "fst (Time_Date (candidate (Yearly p) 0)) = Y"
      by (simp add: candidate_yearly_Time_Date [OF t])
    have "Time_Date (candidate (Yearly p) i) \<noteq> Time_Date (y_start p)"
      using k ci t by (metis fst_conv add_cancel_left_right)
    moreover have "Time_Date (candidate (Yearly p) i) \<noteq> Time_Date (candidate (Yearly p) 0)"
      using k ci c0 by (metis add_cancel_left_right)
    ultimately show ?thesis using Yearly by auto
  qed
  then show "candidate c i \<noteq> anchor c" "candidate c i \<noteq> candidate c 0" by simp_all
qed

lemma skip_first_never_anchor:
  assumes i: "occurrenceIndex c = 1" and s: "step c \<noteq> 0"
    and n: "nexts clks c = Some (rs, c')"
  shows "1 \<le> occurrenceIndex c' \<and> getCandidate c' \<noteq> anchor c \<and>
         getCandidate c' \<noteq> candidate c 0"
proof -
  from nexts_frame [OF n] i have le: "1 \<le> occurrenceIndex c'"
    and c: "candidate c' = candidate c" by simp_all
  from le have "occurrenceIndex c' \<noteq> 0" by simp
  from candidate_neq [OF s this] le c show ?thesis
    by (simp add: getCandidate_candidate)
qed




subsection \<open>The occurrence index and the candidate\<close>

lemma periodic_next_loop:
  assumes "periodic_next clk p = Some (r, p')"
  shows "\<exists>p1 nxt k. periodic_loop clk 0 p (periodic_getCandidate p) = Some (p1, nxt, k) \<and>
           p_n p' = p_n p1 \<and> p_n p \<le> p_n p1 \<and> nxt = periodic_getCandidate p'"
proof -
  from assms obtain i k
    where cu: "catch_up (\<lambda>i. periodic_getCandidate (p\<lparr>p_n := i\<rparr>)) clk (p_started p) 0 (p_n p)
                 = Some (i, k)"
      and p': "p' = p\<lparr>p_n := i, p_started := True\<rparr>"
    unfolding periodic_next_eq by (auto split: option.splits)
  have lp: "periodic_loop clk 0 p (periodic_getCandidate p) =
              Some (p\<lparr>p_n := i\<rparr>, periodic_getCandidate (p\<lparr>p_n := i\<rparr>), k)"
    unfolding periodic_loop_eq cu by simp
  have "next clk (Periodic p) = Some (r, Periodic p')" using assms by simp
  from next_frame(1) [OF this] have "p_n p \<le> p_n p'" by simp
  with lp p' show ?thesis by (simp add: periodic_getCandidate_def)
qed

lemma monthly_next_loop:
  assumes "monthly_next clk p = Some (r, p')"
  shows "\<exists>p1 nxt k. monthly_loop clk 0 p (monthly_getCandidate p) = Some (p1, nxt, k) \<and>
           m_n p' = m_n p1 \<and> m_n p \<le> m_n p1 \<and> nxt = monthly_getCandidate p'"
proof -
  from assms obtain i k
    where cu: "catch_up (\<lambda>i. monthly_getCandidate (p\<lparr>m_n := i\<rparr>)) clk (m_started p) 0 (m_n p)
                 = Some (i, k)"
      and p': "p' = p\<lparr>m_n := i, m_started := True\<rparr>"
    unfolding monthly_next_eq by (auto split: option.splits)
  have lp: "monthly_loop clk 0 p (monthly_getCandidate p) =
              Some (p\<lparr>m_n := i\<rparr>, monthly_getCandidate (p\<lparr>m_n := i\<rparr>), k)"
    unfolding monthly_loop_eq cu by simp
  have "next clk (Monthly p) = Some (r, Monthly p')" using assms by simp
  from next_frame(1) [OF this] have "m_n p \<le> m_n p'" by simp
  with lp p' show ?thesis by (simp add: monthly_getCandidate_def)
qed

lemma yearly_next_loop:
  assumes "yearly_next clk p = Some (r, p')"
  shows "\<exists>p1 nxt k. yearly_loop clk 0 p (yearly_getCandidate p) = Some (p1, nxt, k) \<and>
           y_n p' = y_n p1 \<and> y_n p \<le> y_n p1 \<and> nxt = yearly_getCandidate p'"
proof -
  from assms obtain i k
    where cu: "catch_up (\<lambda>i. yearly_getCandidate (p\<lparr>y_n := i\<rparr>)) clk (y_started p) 0 (y_n p)
                 = Some (i, k)"
      and p': "p' = p\<lparr>y_n := i, y_started := True\<rparr>"
    unfolding yearly_next_eq by (auto split: option.splits)
  have lp: "yearly_loop clk 0 p (yearly_getCandidate p) =
              Some (p\<lparr>y_n := i\<rparr>, yearly_getCandidate (p\<lparr>y_n := i\<rparr>), k)"
    unfolding yearly_loop_eq cu by simp
  have "next clk (Yearly p) = Some (r, Yearly p')" using assms by simp
  from next_frame(1) [OF this] have "y_n p \<le> y_n p'" by simp
  with lp p' show ?thesis by (simp add: yearly_getCandidate_def)
qed

lemma candidate_formulas:
  "candidate (Periodic p) k = Add (p_start p) (k * p_ammount p)"
  "candidate (Monthly m) k = clamp (m_start m) (AddDate (m_start m) 0 (k * m_ammount m) 0)"
  "candidate (Yearly y) k = clamp (y_start y) (AddDate (y_start y) (k * y_ammount y) 0 0)"
  by (simp_all add: candidate_def periodic_getCandidate_def monthly_getCandidate_clamp
      yearly_getCandidate_clamp)

text \<open>
  C9. Over any sequence of calls of \<open>next\<close>, under any clocks, \<open>occurrenceIndex\<close> does
  not decrease, the anchor and the step stay as they are, and the candidate of the
  cadence is the candidate of its index computed from the anchor. Within a call the
  index changes in the loop only: the cadence \<open>next\<close> leaves behind has the index the
  loop ended with, which is not below the index the call started from, and the
  candidate the loop ended with is \<open>getCandidate\<close> of that cadence. The candidate of
  index \<open>i\<close> is the anchor advanced by \<open>i\<close> whole steps at once (for the calendar
  cadences by \<open>AddDate\<close> on the anchor, then clamped); no previous result enters it.
\<close>

theorem index_monotone_recomputed:
  "(nexts clks c = Some (rs, c') \<longrightarrow>
      occurrenceIndex c \<le> occurrenceIndex c' \<and> anchor c' = anchor c \<and> step c' = step c \<and>
      getCandidate c' = candidate c (occurrenceIndex c')) \<and>
   (periodic_next clk p = Some (r, p') \<longrightarrow>
      (\<exists>p1 nxt k. periodic_loop clk 0 p (periodic_getCandidate p) = Some (p1, nxt, k) \<and>
           p_n p' = p_n p1 \<and> p_n p \<le> p_n p1 \<and> nxt = periodic_getCandidate p')) \<and>
   (monthly_next clk m = Some (rm, m') \<longrightarrow>
      (\<exists>m1 nxt k. monthly_loop clk 0 m (monthly_getCandidate m) = Some (m1, nxt, k) \<and>
           m_n m' = m_n m1 \<and> m_n m \<le> m_n m1 \<and> nxt = monthly_getCandidate m')) \<and>
   (yearly_next clk y = Some (ry, y') \<longrightarrow>
      (\<exists>y1 nxt k. yearly_loop clk 0 y (yearly_getCandidate y) = Some (y1, nxt, k) \<and>
           y_n y' = y_n y1 \<and> y_n y \<le> y_n y1 \<and> nxt = yearly_getCandidate y')) \<and>
   candidate (Periodic p) i = Add (p_start p) (i * p_ammount p) \<and>
   candidate (Monthly m) i = clamp (m_start m) (AddDate (m_start m) 0 (i * m_ammount m) 0) \<and>
   candidate (Yearly y) i = clamp (y_start y) (AddDate (y_start y) (i * y_ammount y) 0 0)"
proof (intro conjI impI)
  assume n: "nexts clks c = Some (rs, c')"
  from nexts_frame [OF n]
  show "occurrenceIndex c \<le> occurrenceIndex c'" "anchor c' = anchor c" "step c' = step c"
    "getCandidate c' = candidate c (occurrenceIndex c')"
    by (simp_all add: getCandidate_candidate)
next
  assume "periodic_next clk p = Some (r, p')"
  then show "\<exists>p1 nxt k. periodic_loop clk 0 p (periodic_getCandidate p) = Some (p1, nxt, k) \<and>
           p_n p' = p_n p1 \<and> p_n p \<le> p_n p1 \<and> nxt = periodic_getCandidate p'"
    by (rule periodic_next_loop)
next
  assume "monthly_next clk m = Some (rm, m')"
  then show "\<exists>m1 nxt k. monthly_loop clk 0 m (monthly_getCandidate m) = Some (m1, nxt, k) \<and>
           m_n m' = m_n m1 \<and> m_n m \<le> m_n m1 \<and> nxt = monthly_getCandidate m'"
    by (rule monthly_next_loop)
next
  assume "yearly_next clk y = Some (ry, y')"
  then show "\<exists>y1 nxt k. yearly_loop clk 0 y (yearly_getCandidate y) = Some (y1, nxt, k) \<and>
           y_n y' = y_n y1 \<and> y_n y \<le> y_n y1 \<and> nxt = yearly_getCandidate y'"
    by (rule yearly_next_loop)
qed (simp_all add: candidate_formulas)


theorem index_monotone_recomputed_witness:
  "nexts [frozen 50, frozen 125]
     (Periodic \<lparr>p_start = 100, p_end = 0, p_started = True, p_ammount = 10, p_n = 1\<rparr>) =
     Some ([(True, 60), (True, 5)],
       Periodic \<lparr>p_start = 100, p_end = 0, p_started = True, p_ammount = 10, p_n = 3\<rparr>) \<and>
   getCandidate (Periodic \<lparr>p_start = 100, p_end = 0, p_started = True, p_ammount = 10, p_n = 3\<rparr>)
     = candidate (Periodic \<lparr>p_start = 100, p_end = 0, p_started = True, p_ammount = 10, p_n = 1\<rparr>) 3 \<and>
   (\<exists>p1 nxt k. periodic_loop (frozen 125) 0
        \<lparr>p_start = 100, p_end = 0, p_started = True, p_ammount = 10, p_n = 1\<rparr>
        (periodic_getCandidate
           \<lparr>p_start = 100, p_end = 0, p_started = True, p_ammount = 10, p_n = 1\<rparr>) =
        Some (p1, nxt, k) \<and> 3 = p_n p1) \<and>
   (\<exists>m1 nxt k. monthly_loop (frozen (Date 2023 1 1 0)) 0
        \<lparr>m_start = Date 2023 1 31 0, m_end = 0, m_started = True, m_ammount = 1, m_n = 1\<rparr>
        (monthly_getCandidate
           \<lparr>m_start = Date 2023 1 31 0, m_end = 0, m_started = True, m_ammount = 1, m_n = 1\<rparr>) =
        Some (m1, nxt, k) \<and> 1 = m_n m1) \<and>
   (\<exists>y1 nxt k. yearly_loop (frozen (Date 2024 3 1 0)) 0
        \<lparr>y_start = Date 2024 2 29 0, y_end = 0, y_started = True, y_ammount = 1, y_n = 1\<rparr>
        (yearly_getCandidate
           \<lparr>y_start = Date 2024 2 29 0, y_end = 0, y_started = True, y_ammount = 1, y_n = 1\<rparr>) =
        Some (y1, nxt, k) \<and> 1 = y_n y1)"
proof -
  let ?p = "\<lparr>p_start = 100, p_end = 0, p_started = True, p_ammount = 10, p_n = 1\<rparr>"
  let ?p3 = "\<lparr>p_start = 100, p_end = 0, p_started = True, p_ammount = 10, p_n = 3\<rparr>"
  let ?m = "\<lparr>m_start = Date 2023 1 31 0, m_end = 0, m_started = True, m_ammount = 1, m_n = 1\<rparr>"
  let ?y = "\<lparr>y_start = Date 2024 2 29 0, y_end = 0, y_started = True, y_ammount = 1, y_n = 1\<rparr>"
  have np: "nexts [frozen 50, frozen 125] (Periodic ?p) = Some ([(True, 60), (True, 5)], Periodic ?p3)"
    by (simp add: next_eq catch_up.simps candidate_periodic_formula Before_def frozen_def
        IsZero_def Sub_def)
  have n1: "periodic_next (frozen 125) ?p = Some ((True, 5), ?p3)"
    by (simp add: periodic_next_eq catch_up.simps periodic_getCandidate_def Add_def Before_def
        frozen_def IsZero_def Sub_def)
  have "\<not> Before (getCandidate (Monthly ?m)) (Date 2023 1 1 0)"
    unfolding Before_def by code_simp
  from next_stay [OF this] obtain rm
    where nm: "monthly_next (frozen (Date 2023 1 1 0)) ?m = Some (rm, ?m)"
    by auto
  have "\<not> Before (getCandidate (Yearly ?y)) (Date 2024 3 1 0)"
    unfolding Before_def by code_simp
  from next_stay [OF this] obtain ry
    where ny: "yearly_next (frozen (Date 2024 3 1 0)) ?y = Some (ry, ?y)"
    by auto
  have a: "getCandidate (Periodic ?p3) = candidate (Periodic ?p) 3"
    using index_monotone_recomputed [of "[frozen 50, frozen 125]" "Periodic ?p"
      "[(True, 60), (True, 5)]" "Periodic ?p3"] np
    by simp
  have b: "\<exists>p1 nxt k. periodic_loop (frozen 125) 0 ?p (periodic_getCandidate ?p) =
             Some (p1, nxt, k) \<and> 3 = p_n p1"
    using index_monotone_recomputed [of _ _ _ _ "frozen 125" ?p "(True, 5)" ?p3] n1
    by fastforce
  have c: "\<exists>m1 nxt k. monthly_loop (frozen (Date 2023 1 1 0)) 0 ?m (monthly_getCandidate ?m) =
             Some (m1, nxt, k) \<and> 1 = m_n m1"
    using index_monotone_recomputed [of _ _ _ _ "frozen (Date 2023 1 1 0)" _ _ _ ?m rm ?m] nm
    by fastforce
  have d: "\<exists>y1 nxt k. yearly_loop (frozen (Date 2024 3 1 0)) 0 ?y (yearly_getCandidate ?y) =
             Some (y1, nxt, k) \<and> 1 = y_n y1"
    using index_monotone_recomputed [of _ _ _ _ "frozen (Date 2024 3 1 0)" _ _ _ _ _ _ ?y ry ?y] ny
    by fastforce
  from np a b c d show ?thesis by blast
qed

subsection \<open>Skip-first cadences are primed from the start\<close>

lemma primed_call:
  assumes p: "primed c" and n: "next (frozen now) c = Some ((h, w), c')"
  shows "\<not> Before (getCandidate c') now" "0 \<le> w" "w = Sub (getCandidate c') now"
    "\<forall>j. occurrenceIndex c \<le> j \<and> j < occurrenceIndex c' \<longrightarrow> Before (candidate c j) now"
proof -
  from next_primed_frozen [OF p n] obtain i
    where c': "c' = set_primed (at_index c i)" and nb: "\<not> Before (candidate c i) now"
      and al: "\<forall>j. occurrenceIndex c \<le> j \<and> j < i \<longrightarrow> Before (candidate c j) now"
      and r: "(h, w) = (IsZero (bound c) \<or> Before (candidate c i) (bound c),
                        Sub (candidate c i) now)"
    by blast
  have g: "getCandidate c' = candidate c i" by (simp add: c' getCandidate_candidate)
  show "\<not> Before (getCandidate c') now" using nb by (simp add: g)
  show "w = Sub (getCandidate c') now" using r by (simp add: g)
  show "0 \<le> w" using r nb by (simp add: Sub_def Before_def)
  show "\<forall>j. occurrenceIndex c \<le> j \<and> j < occurrenceIndex c' \<longrightarrow> Before (candidate c j) now"
    using al by (simp add: c')
qed

lemma skip_first_call:
  assumes p: "primed c" and i: "occurrenceIndex c = 1"
  shows "(next (frozen now) c = Some ((h, w), c') \<longrightarrow>
            \<not> Before (getCandidate c') now \<and> 0 \<le> w \<and> w = Sub (getCandidate c') now \<and>
            (\<forall>j. 1 \<le> j \<and> j < occurrenceIndex c' \<longrightarrow> Before (candidate c j) now)) \<and>
         (0 < step c \<longrightarrow> (\<exists>r. next (frozen now) c = Some r))"
  using primed_call [OF p, of now h w c'] next_returns [of c now] i by simp




subsection \<open>The wait\<close>




subsection \<open>The periodic cadence in step with the clock\<close>

lemma set_primed_at_index_twice [simp]:
  "set_primed (at_index (set_primed (at_index c a)) b) = set_primed (at_index c b)"
  by (cases c) simp_all

lemma set_primed_idem: "primed c \<Longrightarrow> set_primed c = c"
  by (cases c) simp_all

lemma nexts_in_step:
  "primed c \<Longrightarrow> (\<forall>j. Before (candidate c j) (candidate c (j + 1))) \<Longrightarrow>
   nexts (map (\<lambda>j. frozen (candidate c (occurrenceIndex c + 1 + int j))) [0..<m]) c =
     Some (map (\<lambda>j. (IsZero (bound c) \<or>
                       Before (candidate c (occurrenceIndex c + 1 + int j)) (bound c), 0))
             [0..<m],
           set_primed (at_index c (occurrenceIndex c + int m)))"
proof (induction m arbitrary: c)
  case 0
  then show ?case by (simp add: set_primed_idem)
next
  case (Suc m)
  let ?n = "occurrenceIndex c"
  let ?d = "set_primed (at_index c (?n + 1))"
  have b: "Before (getCandidate c) (candidate c (?n + 1))"
    using Suc.prems(2) by (simp add: getCandidate_candidate)
  have nb: "\<not> Before (candidate c (?n + 1)) (candidate c (?n + 1))"
    by (simp add: Before_def)
  have n1: "next (frozen (candidate c (?n + 1))) c =
              Some ((IsZero (bound c) \<or> Before (candidate c (?n + 1)) (bound c), 0), ?d)"
    using next_advance_one [OF Suc.prems(1) b nb] by (simp add: Sub_def)
  have d: "primed ?d" "\<forall>j. Before (candidate ?d j) (candidate ?d (j + 1))"
    "occurrenceIndex ?d = ?n + 1" "candidate ?d = candidate c" "bound ?d = bound c"
    using Suc.prems(2) by simp_all
  have e: "?n + 1 + 1 + int j = ?n + 1 + int (Suc j)" for j by simp
  have f: "?n + 1 + int m = ?n + int (Suc m)" by simp
  from Suc.IH [OF d(1,2)]
  have rest: "nexts (map (\<lambda>j. frozen (candidate c (?n + 1 + int (Suc j)))) [0..<m]) ?d =
     Some (map (\<lambda>j. (IsZero (bound c) \<or>
                       Before (candidate c (?n + 1 + int (Suc j))) (bound c), 0))
             [0..<m],
           set_primed (at_index c (?n + int (Suc m))))"
    unfolding d(3,4,5) e f by simp
  show ?case
    unfolding map_upt_Suc nexts.simps using n1 rest by simp
qed

lemma periodic_increasing:
  assumes "0 < p_ammount p"
  shows "Before (candidate (Periodic p) j) (candidate (Periodic p) (j + 1))"
  using assms by (simp add: candidate_periodic_formula Before_def algebra_simps)




end
